theory Spec2Isabelle
  imports Main "HOL-Library.Word" "HOL-Library.Multiset" "HOL-Library.List_Lexorder"
begin

section \<open>Strings of the source language\<close>

text \<open>
  A TypeScript string is a sequence of 16-bit code units; \<open>length\<close>, indexing, \<open>slice\<close>
  and a regular expression without the \<open>u\<close> flag all work on code units.  Literals of the
  source are written \<open>str ''web-1''\<close>.
\<close>

type_synonym code_unit = "16 word"
type_synonym jsstring = "code_unit list"

definition str :: "string \<Rightarrow> jsstring" where
  "str s = map (\<lambda>c. of_nat (of_char c)) s"

text \<open>
  \<open>String.prototype.trim\<close> removes white space and line terminators from both ends:
  TAB, LF, VT, FF, CR, SP, NBSP, U+1680, U+2000..U+200A, U+2028, U+2029, U+202F, U+205F,
  U+3000 and U+FEFF.
\<close>

definition is_white_space :: "code_unit \<Rightarrow> bool" where
  "is_white_space u =
     ((0x9 \<le> u \<and> u \<le> 0xD) \<or> u = 0x20 \<or> u = 0xA0 \<or> u = 0x1680 \<or>
      (0x2000 \<le> u \<and> u \<le> 0x200A) \<or> u = 0x2028 \<or> u = 0x2029 \<or> u = 0x202F \<or>
      u = 0x205F \<or> u = 0x3000 \<or> u = 0xFEFF)"

definition trim :: "jsstring \<Rightarrow> jsstring" where
  "trim s = rev (dropWhile is_white_space (rev (dropWhile is_white_space s)))"

text \<open>The character class \<open>[-_]\<close> and the class \<open>\d\<close>, which is \<open>[0-9]\<close>.\<close>

definition is_separator :: "code_unit \<Rightarrow> bool" where
  "is_separator u = (u = 0x2D \<or> u = 0x5F)"

definition is_digit :: "code_unit \<Rightarrow> bool" where
  "is_digit u = (0x30 \<le> u \<and> u \<le> 0x39)"

text \<open>
  \<open>s.replace(/[-_]\d+$/, "")\<close>: the pattern is tried at each start position from the
  left; it matches at a position that holds a separator followed by one or more digits
  that reach the end of the string.  The first match is replaced by the empty string; a
  string without a match is returned as it is.
\<close>

fun replace_index_suffix :: "jsstring \<Rightarrow> jsstring" where
  "replace_index_suffix [] = []"
| "replace_index_suffix (u # us) =
     (if is_separator u \<and> us \<noteq> [] \<and> list_all is_digit us then []
      else u # replace_index_suffix us)"

section \<open>The candidate generator\<close>

text \<open>
  A \<open>Set<string>\<close> keeps its elements in insertion order and ignores the insertion of an
  element it already holds, so it is a duplicate-free list that grows at the end.
\<close>

definition set_add :: "'a list \<Rightarrow> 'a \<Rightarrow> 'a list" where
  "set_add out x = (if x \<in> set out then out else out @ [x])"

definition new_Set :: "'a list \<Rightarrow> 'a list" where
  "new_Set xs = foldl set_add [] xs"

text \<open>One round of the loop \<open>for (let i = 0; i < trimmed.length; i++)\<close>.\<close>

definition prefix_step :: "jsstring \<Rightarrow> jsstring list \<Rightarrow> nat \<Rightarrow> jsstring list" where
  "prefix_step trimmed out i =
     (let ch = trimmed ! i in
      if ch = 0x2D \<or> ch = 0x5F then
        (let prefix = take i trimmed in
         if prefix \<noteq> [] then set_add out prefix else out)
      else out)"

definition containerGroupCandidates :: "jsstring \<Rightarrow> jsstring list" where
  "containerGroupCandidates name =
     (let trimmed = trim name in
      if trimmed = [] then []
      else
        (let out0 = set_add [] trimmed;
             base = replace_index_suffix trimmed;
             out1 = (if base \<noteq> [] then set_add out0 base else out0)
         in foldl (prefix_step trimmed) out1 [0..<length trimmed]))"

section \<open>Records and groups\<close>

text \<open>
  The interfaces \<open>ContainerInfo\<close> and \<open>ContainerGroup\<close>.  The fields \<open>id\<close> and \<open>image\<close>
  carry a prime, since HOL has constants of these names.  Counts are numbers of the source
  and are integers here.
\<close>

record ContainerInfo =
  id' :: jsstring
  name :: jsstring
  image' :: jsstring
  state :: jsstring
  status :: jsstring
  ports :: jsstring

record ContainerGroup =
  key :: jsstring
  containers :: "ContainerInfo list"
  runningCount :: int
  stoppedCount :: int

text \<open>\<open>c.name || c.id\<close>: the name unless it is the empty string, which is falsy.\<close>

definition name_or_id :: "ContainerInfo \<Rightarrow> jsstring" where
  "name_or_id c = (if name c \<noteq> [] then name c else id' c)"

definition is_running :: "ContainerInfo \<Rightarrow> bool" where
  "is_running c = (state c = str ''running'')"

section \<open>Sorting an array with a comparator\<close>

text \<open>
  \<open>Array.prototype.sort\<close> is stable, and for a consistent comparator its result is the
  one stable sorted arrangement of the array.  Insertion from the right computes it: an
  element is put in front of the first element it does not compare greater than.
\<close>

fun insert_sorted :: "('a \<Rightarrow> 'a \<Rightarrow> int) \<Rightarrow> 'a \<Rightarrow> 'a list \<Rightarrow> 'a list" where
  "insert_sorted cmp x [] = [x]"
| "insert_sorted cmp x (y # ys) =
     (if cmp x y \<le> 0 then x # y # ys else y # insert_sorted cmp x ys)"

definition array_sort :: "('a \<Rightarrow> 'a \<Rightarrow> int) \<Rightarrow> 'a list \<Rightarrow> 'a list" where
  "array_sort cmp xs = foldr (insert_sorted cmp) xs []"

section \<open>The frequency index\<close>

text \<open>
  The first loop of \<open>groupContainersByNamePrefix\<close> fills two maps: \<open>candidateCounts\<close>
  and \<open>candidatesById\<close>.
\<close>

record index_state =
  candidateCounts :: "jsstring \<rightharpoonup> nat"
  candidatesById :: "jsstring \<rightharpoonup> jsstring list"

text \<open>\<open>candidateCounts.get(cand) || 0\<close>\<close>

definition get_count :: "(jsstring \<rightharpoonup> nat) \<Rightarrow> jsstring \<Rightarrow> nat" where
  "get_count m cand = (case m cand of None \<Rightarrow> 0 | Some n \<Rightarrow> n)"

definition count_candidate :: "(jsstring \<rightharpoonup> nat) \<Rightarrow> jsstring \<Rightarrow> (jsstring \<rightharpoonup> nat)" where
  "count_candidate m cand = m(cand \<mapsto> get_count m cand + 1)"

definition index_step :: "index_state \<Rightarrow> ContainerInfo \<Rightarrow> index_state" where
  "index_step st c =
     (let nm = trim (name_or_id c);
          uniqueCandidates = new_Set (containerGroupCandidates nm)
      in \<lparr>candidateCounts = foldl count_candidate (candidateCounts st) uniqueCandidates,
          candidatesById = (candidatesById st)(id' c \<mapsto> uniqueCandidates)\<rparr>)"

definition build_index :: "ContainerInfo list \<Rightarrow> index_state" where
  "build_index cs =
     foldl index_step \<lparr>candidateCounts = Map.empty, candidatesById = Map.empty\<rparr> cs"

section \<open>The key selector\<close>

text \<open>
  The inner loop of the second loop keeps \<open>(bestKey, bestCount, bestLen)\<close>, starting from
  \<open>(name, 1, 0)\<close>.
\<close>

definition best_step ::
  "(jsstring \<rightharpoonup> nat) \<Rightarrow> jsstring \<times> nat \<times> nat \<Rightarrow> jsstring \<Rightarrow> jsstring \<times> nat \<times> nat" where
  "best_step counts b cand =
     (case b of (bestKey, bestCount, bestLen) \<Rightarrow>
        (let count = get_count counts cand in
         if count < 2 then b
         else if count > bestCount \<or> (count = bestCount \<and> length cand > bestLen)
           then (cand, count, length cand)
           else b))"

definition select_key :: "(jsstring \<rightharpoonup> nat) \<Rightarrow> jsstring \<Rightarrow> jsstring list \<Rightarrow> jsstring" where
  "select_key counts nm candidates = fst (foldl (best_step counts) (nm, 1, 0) candidates)"

text \<open>
  \<open>candidatesById.get(c.id) || containerGroupCandidates(name)\<close>: an array is truthy also
  when it is empty, so the right operand is taken only when the map has no entry.
\<close>

definition best_key :: "index_state \<Rightarrow> ContainerInfo \<Rightarrow> jsstring" where
  "best_key st c =
     (let nm = trim (name_or_id c);
          candidates = (case candidatesById st (id' c) of
                          Some cands \<Rightarrow> cands
                        | None \<Rightarrow> containerGroupCandidates nm)
      in select_key (candidateCounts st) nm candidates)"

section \<open>The group builder\<close>

text \<open>
  \<open>groups\<close> is a \<open>Map\<close>, iterated in the order in which its keys were first set: an
  association list that grows at the end.  A record is pushed on the list of its key, or
  starts a new list.
\<close>

fun groups_push ::
  "(jsstring \<times> 'a list) list \<Rightarrow> jsstring \<Rightarrow> 'a \<Rightarrow> (jsstring \<times> 'a list) list" where
  "groups_push [] k c = [(k, [c])]"
| "groups_push ((k', items) # rest) k c =
     (if k' = k then (k', items @ [c]) # rest else (k', items) # groups_push rest k c)"

definition build_groups ::
  "index_state \<Rightarrow> ContainerInfo list \<Rightarrow> (jsstring \<times> ContainerInfo list) list" where
  "build_groups st cs = foldl (\<lambda>groups c. groups_push groups (best_key st c) c) [] cs"

text \<open>
  The two comparators.  \<open>localeCompare\<close> is the host's \<open>String.prototype.localeCompare\<close>,
  a parameter of the model.
\<close>

definition member_compare ::
  "(jsstring \<Rightarrow> jsstring \<Rightarrow> int) \<Rightarrow> ContainerInfo \<Rightarrow> ContainerInfo \<Rightarrow> int" where
  "member_compare localeCompare a b =
     (let ar = is_running a; br = is_running b in
      if ar \<noteq> br then (if ar then - 1 else 1)
      else
        (let an = localeCompare (name_or_id a) (name_or_id b) in
         if an \<noteq> 0 then an else localeCompare (id' a) (id' b)))"

definition group_compare ::
  "(jsstring \<Rightarrow> jsstring \<Rightarrow> int) \<Rightarrow> ContainerGroup \<Rightarrow> ContainerGroup \<Rightarrow> int" where
  "group_compare localeCompare a b =
     (let ar = runningCount a > 0; br = runningCount b > 0 in
      if ar \<noteq> br then (if ar then - 1 else 1)
      else if length (containers a) \<noteq> length (containers b)
        then int (length (containers b)) - int (length (containers a))
        else localeCompare (key a) (key b))"

definition make_group ::
  "(jsstring \<Rightarrow> jsstring \<Rightarrow> int) \<Rightarrow> jsstring \<times> ContainerInfo list \<Rightarrow> ContainerGroup" where
  "make_group localeCompare entry =
     (case entry of (k, items) \<Rightarrow>
        (let rc = int (length (filter is_running items));
             sc = int (length items) - rc
         in \<lparr>key = k, containers = array_sort (member_compare localeCompare) items,
             runningCount = rc, stoppedCount = sc\<rparr>))"

definition groupContainersByNamePrefix ::
  "(jsstring \<Rightarrow> jsstring \<Rightarrow> int) \<Rightarrow> ContainerInfo list \<Rightarrow> ContainerGroup list" where
  "groupContainersByNamePrefix localeCompare cs =
     (let st = build_index cs;
          groups = build_groups st cs;
          out = map (make_group localeCompare) groups
      in array_sort (group_compare localeCompare) out)"

section \<open>Sample inputs\<close>

text \<open>
  Comparison by code units, the lexicographic order of strings, is one consistent
  comparator; it serves as the sample \<open>localeCompare\<close> of the concrete instances.
  \<open>container i n s\<close> is a record with id \<open>i\<close>, name \<open>n\<close> and state \<open>s\<close>; the two
  scenarios are snapshots of the specification's examples.
\<close>

definition codeUnitCompare :: "jsstring \<Rightarrow> jsstring \<Rightarrow> int" where
  "codeUnitCompare a b = (if a < b then - 1 else if b < a then 1 else 0)"

text \<open>
  A second sample comparator, a collation in miniature: strings are compared with the
  upper-case letters \<open>A\<close> to \<open>Z\<close> folded to lower case, and strings that are equal up to
  case with the lower-case letter first.  Like the collation of a host locale, and
  unlike the order of code units, it puts \<open>x-a\<close> before \<open>x-C\<close> and \<open>api\<close> before
  \<open>Box\<close>.
\<close>

definition fold_case :: "code_unit \<Rightarrow> code_unit" where
  "fold_case u = (if 0x41 \<le> u \<and> u \<le> 0x5A then u + 0x20 else u)"

definition caseFoldCompare :: "jsstring \<Rightarrow> jsstring \<Rightarrow> int" where
  "caseFoldCompare a b =
     (if codeUnitCompare (map fold_case a) (map fold_case b) \<noteq> 0
      then codeUnitCompare (map fold_case a) (map fold_case b)
      else codeUnitCompare b a)"

definition container :: "string \<Rightarrow> string \<Rightarrow> string \<Rightarrow> ContainerInfo" where
  "container i n s =
     \<lparr>id' = str i, name = str n, image' = [], state = str s, status = [], ports = []\<rparr>"

definition scenario_A :: "ContainerInfo list" where
  "scenario_A =
     [container ''1'' ''web-1'' ''running'',
      container ''2'' ''web-2'' ''running'',
      container ''3'' ''api-1'' ''running'']"

definition scenario_B :: "ContainerInfo list" where
  "scenario_B =
     [container ''1'' ''db'' ''running'',
      container ''2'' ''db-replica-1'' ''exited'',
      container ''3'' ''db-replica-2'' ''running'']"

section \<open>The specification's wording\<close>

subsection \<open>The candidate list\<close>

text \<open>
  The list the specification describes, to be compared with \<open>containerGroupCandidates\<close>:
  the trailing index suffix is found from the right end, the prefixes are listed by
  position, and duplicates are dropped keeping the first occurrence (\<open>remdups\<close> keeps the
  last one, hence the two reversals).
\<close>

definition first_occurrences :: "'a list \<Rightarrow> 'a list" where
  "first_occurrences xs = rev (remdups (rev xs))"

definition strip_index_suffix :: "jsstring \<Rightarrow> jsstring" where
  "strip_index_suffix s =
     (let digits = takeWhile is_digit (rev s);
          rest = dropWhile is_digit (rev s)
      in if digits \<noteq> [] \<and> rest \<noteq> [] \<and> is_separator (hd rest) then rev (tl rest) else s)"

definition separator_prefixes :: "jsstring \<Rightarrow> jsstring list" where
  "separator_prefixes s =
     map (\<lambda>i. take i s) (filter (\<lambda>i. is_separator (s ! i) \<and> take i s \<noteq> []) [0..<length s])"

subsection \<open>The frequency index and the selected key\<close>

text \<open>
  The candidates of a record are those the first loop generates for it, and the count of
  a string is the number of records of the snapshot whose candidates contain it.  The
  key the specification selects: among the candidates counted at least twice those with
  the highest count, among these the longest, among these the first in the order of
  generation; the fallback when no candidate is counted twice.
\<close>

definition record_candidates :: "ContainerInfo \<Rightarrow> jsstring list" where
  "record_candidates c = containerGroupCandidates (trim (name_or_id c))"

definition occurrence_count :: "ContainerInfo list \<Rightarrow> jsstring \<Rightarrow> nat" where
  "occurrence_count cs k = length (filter (\<lambda>d. k \<in> set (record_candidates d)) cs)"

definition spec_key :: "(jsstring \<Rightarrow> nat) \<Rightarrow> jsstring list \<Rightarrow> jsstring \<Rightarrow> jsstring" where
  "spec_key n candidates fallback =
     (let eligible = filter (\<lambda>k. 2 \<le> n k) candidates;
          highest = filter (\<lambda>k. \<forall>k'\<in>set eligible. n k' \<le> n k) eligible;
          longest = filter (\<lambda>k. \<forall>k'\<in>set highest. length k' \<le> length k) highest
      in case longest of [] \<Rightarrow> fallback | k # _ \<Rightarrow> k)"

text \<open>
  The invariant of the selection loop: \<open>preferred n a b\<close> says that \<open>a\<close> replaces the
  best candidate \<open>b\<close>, and \<open>selected_at n C i\<close> that position \<open>i\<close> holds an eligible
  candidate that no eligible candidate of \<open>C\<close> replaces and that replaces every eligible
  one before it.
\<close>

definition preferred :: "(jsstring \<Rightarrow> nat) \<Rightarrow> jsstring \<Rightarrow> jsstring \<Rightarrow> bool" where
  "preferred n a b = (n b < n a \<or> (n a = n b \<and> length b < length a))"

definition selected_at :: "(jsstring \<Rightarrow> nat) \<Rightarrow> jsstring list \<Rightarrow> nat \<Rightarrow> bool" where
  "selected_at n C i =
     (i < length C \<and> 2 \<le> n (C ! i) \<and>
      (\<forall>j<length C. 2 \<le> n (C ! j) \<longrightarrow>
         \<not> preferred n (C ! j) (C ! i) \<and> (j < i \<longrightarrow> preferred n (C ! i) (C ! j))))"

definition best_invariant ::
  "(jsstring \<Rightarrow> nat) \<Rightarrow> jsstring \<Rightarrow> jsstring list \<Rightarrow> jsstring \<times> nat \<times> nat \<Rightarrow> bool" where
  "best_invariant n nm C b =
     (((\<forall>k\<in>set C. n k < 2) \<and> b = (nm, 1, 0)) \<or>
      (\<exists>i. selected_at n C i \<and> b = (C ! i, n (C ! i), length (C ! i))))"

subsection \<open>Comparators and the two orders\<close>

text \<open>
  A comparator is consistent when the signs of \<open>cmp a b\<close> and \<open>cmp b a\<close> are opposite
  and not-greater is transitive, as the language standard requires of
  \<open>localeCompare\<close> and of every comparator given to \<open>sort\<close>.  \<open>member_order\<close> and
  \<open>group_order\<close> are the orders the specification states for the members of a group and
  for the groups, over the string order of \<open>localeCompare\<close>.
\<close>

definition consistent_comparator :: "('a \<Rightarrow> 'a \<Rightarrow> int) \<Rightarrow> bool" where
  "consistent_comparator cmp =
     ((\<forall>a b. (cmp a b < 0) = (cmp b a > 0)) \<and>
      (\<forall>a b c. cmp a b \<le> 0 \<and> cmp b c \<le> 0 \<longrightarrow> cmp a c \<le> 0))"

definition member_order :: "(jsstring \<Rightarrow> jsstring \<Rightarrow> int) \<Rightarrow> ContainerInfo \<Rightarrow> ContainerInfo \<Rightarrow> bool" where
  "member_order localeCompare a b =
     ((is_running a \<or> \<not> is_running b) \<and>
      (is_running a = is_running b \<longrightarrow>
         localeCompare (name_or_id a) (name_or_id b) \<le> 0 \<and>
         (localeCompare (name_or_id a) (name_or_id b) = 0 \<longrightarrow>
            localeCompare (id' a) (id' b) \<le> 0)))"

definition has_running :: "ContainerGroup \<Rightarrow> bool" where
  "has_running g = (\<exists>c\<in>set (containers g). is_running c)"

definition group_order :: "(jsstring \<Rightarrow> jsstring \<Rightarrow> int) \<Rightarrow> ContainerGroup \<Rightarrow> ContainerGroup \<Rightarrow> bool" where
  "group_order localeCompare a b =
     ((has_running a \<or> \<not> has_running b) \<and>
      (has_running a = has_running b \<longrightarrow>
         length (containers b) \<le> length (containers a) \<and>
         (length (containers a) = length (containers b) \<longrightarrow>
            localeCompare (key a) (key b) \<le> 0)))"

text \<open>The two leading keys of the comparators, as comparators of their own.\<close>

definition flag_compare :: "bool \<Rightarrow> bool \<Rightarrow> int" where
  "flag_compare ar br = (if ar \<noteq> br then (if ar then - 1 else 1) else 0)"

definition size_compare :: "nat \<Rightarrow> nat \<Rightarrow> int" where
  "size_compare m n = int n - int m"

section \<open>The store: arrays and objects with identity\<close>

text \<open>
  The records of a snapshot are objects, and the snapshot and the member lists are
  arrays of references to them.  A store holds the objects and the arrays of the heap; a
  reference is a position in it.  Temporaries that never escape the function (the
  candidate arrays, the array made by \<open>filter\<close>) and the returned array of group objects
  are values, not entries of the store.  No statement of the function assigns to a field
  of a record, so no operation below writes to \<open>objects\<close>.
\<close>

type_synonym ref = nat

record store =
  objects :: "ContainerInfo list"
  arrays :: "ref list list"

record group_object =
  group_key :: jsstring
  group_containers :: ref
  group_runningCount :: int
  group_stoppedCount :: int

definition deref :: "store \<Rightarrow> ref \<Rightarrow> ContainerInfo" where
  "deref h r = objects h ! r"

text \<open>
  The argument of a call is a reference to an array of the store whose elements are
  references to objects of the store.
\<close>

definition well_formed :: "store \<Rightarrow> ref \<Rightarrow> bool" where
  "well_formed h a = (a < length (arrays h) \<and> list_all (\<lambda>r. r < length (objects h)) (arrays h ! a))"

text \<open>\<open>[c]\<close> allocates an array, \<open>existing.push(c)\<close> and \<open>items.sort(...)\<close> write one.\<close>

definition new_array :: "store \<Rightarrow> ref list \<Rightarrow> ref \<times> store" where
  "new_array h xs = (length (arrays h), h\<lparr>arrays := arrays h @ [xs]\<rparr>)"

definition array_push :: "store \<Rightarrow> ref \<Rightarrow> ref \<Rightarrow> store" where
  "array_push h a r = h\<lparr>arrays := (arrays h)[a := arrays h ! a @ [r]]\<rparr>"

definition sort_in_place :: "(ref \<Rightarrow> ref \<Rightarrow> int) \<Rightarrow> store \<Rightarrow> ref \<Rightarrow> store" where
  "sort_in_place cmp h a = h\<lparr>arrays := (arrays h)[a := array_sort cmp (arrays h ! a)]\<rparr>"

text \<open>
  The second loop on the store.  \<open>for (const c of containers)\<close> reads the array anew in
  every round, and the body writes to the store, so the loop is a recursion on the
  position that looks the array up in the current store; not returning is \<open>None\<close>.
  \<open>groups\<close> maps a key to the reference of its member array.
\<close>

definition group_step ::
  "index_state \<Rightarrow> (jsstring \<times> ref) list \<times> store \<Rightarrow> ref \<Rightarrow> (jsstring \<times> ref) list \<times> store" where
  "group_step st gh r =
     (case gh of (groups, h) \<Rightarrow>
        (let bestKey = best_key st (deref h r) in
         case map_of groups bestKey of
           Some existing \<Rightarrow> (groups, array_push h existing r)
         | None \<Rightarrow> (case new_array h [r] of (a, h') \<Rightarrow> (groups @ [(bestKey, a)], h'))))"

partial_function (option) group_loop ::
  "index_state \<Rightarrow> ref \<Rightarrow> nat \<Rightarrow> (jsstring \<times> ref) list \<times> store \<Rightarrow>
   ((jsstring \<times> ref) list \<times> store) option" where
  "group_loop st a i gh =
     (if i < length (arrays (snd gh) ! a)
      then group_loop st a (Suc i) (group_step st gh (arrays (snd gh) ! a ! i))
      else Some gh)"

declare group_loop.simps [code]

text \<open>The third loop: count, sort the member array in place, push the group object.\<close>

definition finish_group ::
  "(jsstring \<Rightarrow> jsstring \<Rightarrow> int) \<Rightarrow> group_object list \<times> store \<Rightarrow> jsstring \<times> ref \<Rightarrow>
   group_object list \<times> store" where
  "finish_group localeCompare oh entry =
     (case oh of (out, h) \<Rightarrow> case entry of (k, items) \<Rightarrow>
        (let rc = int (length (filter (\<lambda>r. is_running (deref h r)) (arrays h ! items)));
             sc = int (length (arrays h ! items)) - rc;
             h' = sort_in_place (\<lambda>x y. member_compare localeCompare (deref h x) (deref h y)) h items
         in (out @ [\<lparr>group_key = k, group_containers = items,
                      group_runningCount = rc, group_stoppedCount = sc\<rparr>], h')))"

definition group_object_compare ::
  "(jsstring \<Rightarrow> jsstring \<Rightarrow> int) \<Rightarrow> store \<Rightarrow> group_object \<Rightarrow> group_object \<Rightarrow> int" where
  "group_object_compare localeCompare h a b =
     (let ar = group_runningCount a > 0; br = group_runningCount b > 0 in
      if ar \<noteq> br then (if ar then - 1 else 1)
      else if length (arrays h ! group_containers a) \<noteq> length (arrays h ! group_containers b)
        then int (length (arrays h ! group_containers b)) - int (length (arrays h ! group_containers a))
        else localeCompare (group_key a) (group_key b))"

text \<open>
  The function on the store.  The first loop reads the records and writes nothing to
  the store, so it is the fold of \<open>index_step\<close> over the records the array refers to.
\<close>

definition groupContainersByNamePrefix_on_store ::
  "(jsstring \<Rightarrow> jsstring \<Rightarrow> int) \<Rightarrow> store \<Rightarrow> ref \<Rightarrow> (group_object list \<times> store) option" where
  "groupContainersByNamePrefix_on_store localeCompare h containers_ref =
     (let st = foldl (\<lambda>st r. index_step st (deref h r))
                 \<lparr>candidateCounts = Map.empty, candidatesById = Map.empty\<rparr>
                 (arrays h ! containers_ref)
      in case group_loop st containers_ref 0 ([], h) of
           None \<Rightarrow> None
         | Some (groups, h1) \<Rightarrow>
             (case foldl (finish_group localeCompare) ([], h1) groups of
                (out, h2) \<Rightarrow> Some (array_sort (group_object_compare localeCompare h2) out, h2)))"

text \<open>
  What a group object stands for in a store, the group with its members read out, and
  what an array reference stands for, the snapshot.
\<close>

definition group_value :: "store \<Rightarrow> group_object \<Rightarrow> ContainerGroup" where
  "group_value h g =
     \<lparr>key = group_key g, containers = map (deref h) (arrays h ! group_containers g),
      runningCount = group_runningCount g, stoppedCount = group_stoppedCount g\<rparr>"

definition snapshot :: "store \<Rightarrow> ref \<Rightarrow> ContainerInfo list" where
  "snapshot h a = map (deref h) (arrays h ! a)"

text \<open>
  The invariant of the second loop, started in the store \<open>h0\<close>: the objects and the
  arrays of \<open>h0\<close> are as they were, and the member arrays are the arrays allocated since,
  in the order of the keys.  \<open>group_arrays\<close> reads the member arrays out.
\<close>

definition group_arrays :: "(jsstring \<times> ref) list \<times> store \<Rightarrow> (jsstring \<times> ref list) list" where
  "group_arrays gh = map (\<lambda>(k, a). (k, arrays (snd gh) ! a)) (fst gh)"

definition loop_invariant :: "store \<Rightarrow> (jsstring \<times> ref) list \<times> store \<Rightarrow> bool" where
  "loop_invariant h0 gh =
     (objects (snd gh) = objects h0 \<and>
      length (arrays h0) \<le> length (arrays (snd gh)) \<and>
      take (length (arrays h0)) (arrays (snd gh)) = arrays h0 \<and>
      map snd (fst gh) = [length (arrays h0)..<length (arrays (snd gh))])"

text \<open>The comparator of the member sort and the group object of the third loop, by name.\<close>

definition member_compare_refs ::
  "(jsstring \<Rightarrow> jsstring \<Rightarrow> int) \<Rightarrow> store \<Rightarrow> ref \<Rightarrow> ref \<Rightarrow> int" where
  "member_compare_refs lc h x y = member_compare lc (deref h x) (deref h y)"

definition group_object_of :: "store \<Rightarrow> jsstring \<times> ref \<Rightarrow> group_object" where
  "group_object_of h entry =
     (case entry of (k, items) \<Rightarrow>
        \<lparr>group_key = k, group_containers = items,
         group_runningCount = int (length (filter (\<lambda>r. is_running (deref h r)) (arrays h ! items))),
         group_stoppedCount = int (length (arrays h ! items)) -
           int (length (filter (\<lambda>r. is_running (deref h r)) (arrays h ! items)))\<rparr>)"

text \<open>
  Two stores that hold the snapshot of scenario B: in the second one the objects lie in
  the opposite order and the snapshot is the second array.
\<close>

definition store_B :: store where
  "store_B = \<lparr>objects = scenario_B, arrays = [[0, 1, 2]]\<rparr>"

definition store_B_copy :: store where
  "store_B_copy = \<lparr>objects = rev scenario_B, arrays = [[1], [2, 1, 0]]\<rparr>"

section \<open>Properties of the candidate generator\<close>

lemma set_set_add: "set (set_add out x) = insert x (set out)"
  by (auto simp: set_add_def)

lemma distinct_set_add: "distinct out \<Longrightarrow> distinct (set_add out x)"
  by (simp add: set_add_def)

lemma set_foldl_set_add: "set (foldl set_add acc xs) = set acc \<union> set xs"
  by (induction xs arbitrary: acc) (auto simp: set_set_add)

lemma distinct_foldl_set_add: "distinct acc \<Longrightarrow> distinct (foldl set_add acc xs)"
  by (induction xs arbitrary: acc) (auto simp: distinct_set_add)

lemma foldl_set_add_distinct: "distinct (acc @ xs) \<Longrightarrow> foldl set_add acc xs = acc @ xs"
  by (induction xs arbitrary: acc) (auto simp: set_add_def)

lemma new_Set_distinct: "distinct xs \<Longrightarrow> new_Set xs = xs"
  using foldl_set_add_distinct [of "[]" xs] by (simp add: new_Set_def)

lemma new_Set_first_occurrences: "new_Set xs = first_occurrences xs"
  by (induction xs rule: rev_induct) (auto simp: new_Set_def first_occurrences_def set_add_def set_foldl_set_add)

lemma separator_not_digit: "is_separator u \<Longrightarrow> \<not> is_digit u"
  by (auto simp: is_separator_def is_digit_def)

lemma replace_index_suffix_match:
  "is_separator u \<Longrightarrow> ds \<noteq> [] \<Longrightarrow> list_all is_digit ds \<Longrightarrow>
   replace_index_suffix (p @ u # ds) = p"
  by (induction p) (auto simp: separator_not_digit)

lemma replace_index_suffix_no_match:
  "\<not> (\<exists>p u ds. s = p @ u # ds \<and> is_separator u \<and> ds \<noteq> [] \<and> list_all is_digit ds) \<Longrightarrow>
   replace_index_suffix s = s"
proof (induction s)
  case Nil
  then show ?case by simp
next
  case (Cons a s)
  have "\<not> (\<exists>p u ds. s = p @ u # ds \<and> is_separator u \<and> ds \<noteq> [] \<and> list_all is_digit ds)"
  proof
    assume "\<exists>p u ds. s = p @ u # ds \<and> is_separator u \<and> ds \<noteq> [] \<and> list_all is_digit ds"
    then obtain p u ds where "s = p @ u # ds" "is_separator u" "ds \<noteq> []" "list_all is_digit ds"
      by blast
    then have "a # s = (a # p) @ u # ds \<and> is_separator u \<and> ds \<noteq> [] \<and> list_all is_digit ds"
      by simp
    with Cons.prems show False by blast
  qed
  then have IH: "replace_index_suffix s = s" by (rule Cons.IH)
  have "\<not> (is_separator a \<and> s \<noteq> [] \<and> list_all is_digit s)"
  proof
    assume "is_separator a \<and> s \<noteq> [] \<and> list_all is_digit s"
    then have "a # s = [] @ a # s \<and> is_separator a \<and> s \<noteq> [] \<and> list_all is_digit s" by simp
    with Cons.prems show False by blast
  qed
  with IH show ?case by auto
qed

lemma strip_index_suffix_match:
  assumes "is_separator u" "ds \<noteq> []" "list_all is_digit ds"
  shows "strip_index_suffix (p @ u # ds) = p"
proof -
  have d: "\<And>x. x \<in> set (rev ds) \<Longrightarrow> is_digit x"
    using assms(3) by (simp add: list_all_iff)
  have "rev (p @ u # ds) = rev ds @ u # rev p" by simp
  moreover have "takeWhile is_digit (rev ds @ u # rev p) = rev ds"
    using takeWhile_append2 [of "rev ds" is_digit "u # rev p"] d assms(1)
    by (simp add: separator_not_digit)
  moreover have "dropWhile is_digit (rev ds @ u # rev p) = u # rev p"
    using dropWhile_append2 [of "rev ds" is_digit "u # rev p"] d assms(1)
    by (simp add: separator_not_digit)
  ultimately show ?thesis
    using assms by (simp add: strip_index_suffix_def)
qed

lemma strip_index_suffix_no_match:
  assumes "\<not> (\<exists>p u ds. s = p @ u # ds \<and> is_separator u \<and> ds \<noteq> [] \<and> list_all is_digit ds)"
  shows "strip_index_suffix s = s"
proof -
  let ?d = "takeWhile is_digit (rev s)" and ?r = "dropWhile is_digit (rev s)"
  have "\<not> (?d \<noteq> [] \<and> ?r \<noteq> [] \<and> is_separator (hd ?r))"
  proof
    assume a: "?d \<noteq> [] \<and> ?r \<noteq> [] \<and> is_separator (hd ?r)"
    have "rev s = ?d @ ?r" by simp
    then have "s = rev ?r @ rev ?d" by (metis rev_append rev_rev_ident)
    moreover have "rev ?r = rev (tl ?r) @ [hd ?r]" using a by (cases ?r) auto
    ultimately have "s = rev (tl ?r) @ hd ?r # rev ?d" by simp
    moreover have "list_all is_digit (rev ?d)"
      by (simp add: list_all_iff) (meson set_takeWhileD)
    ultimately show False using assms a by (metis rev_is_Nil_conv)
  qed
  then show ?thesis by (auto simp: strip_index_suffix_def Let_def)
qed

lemma replace_index_suffix_eq: "replace_index_suffix s = strip_index_suffix s"
proof (cases "\<exists>p u ds. s = p @ u # ds \<and> is_separator u \<and> ds \<noteq> [] \<and> list_all is_digit ds")
  case True
  then show ?thesis
    by (auto simp: replace_index_suffix_match strip_index_suffix_match)
next
  case False
  then show ?thesis
    by (simp add: replace_index_suffix_no_match strip_index_suffix_no_match)
qed

lemma foldl_prefix_step:
  "foldl (prefix_step t) out js =
   foldl set_add out (map (\<lambda>i. take i t) (filter (\<lambda>i. is_separator (t ! i) \<and> take i t \<noteq> []) js))"
  by (induction js arbitrary: out) (auto simp: prefix_step_def is_separator_def Let_def)

lemma containerGroupCandidates_new_Set:
  "trim nm \<noteq> [] \<Longrightarrow>
   containerGroupCandidates nm =
     new_Set ([trim nm] @
       (if replace_index_suffix (trim nm) \<noteq> [] then [replace_index_suffix (trim nm)] else []) @
       separator_prefixes (trim nm))"
  by (simp add: containerGroupCandidates_def Let_def new_Set_def foldl_prefix_step separator_prefixes_def)

lemma distinct_containerGroupCandidates: "distinct (containerGroupCandidates nm)"
  by (simp add: containerGroupCandidates_def Let_def foldl_prefix_step distinct_foldl_set_add distinct_set_add set_add_def)

text \<open>
  Claim C2.  For every name whose trimmed form is not empty, the candidate generator
  returns, without duplicates and each string at its first position, the full trimmed
  name, then the name with one trailing index suffix (a separator and digits) removed if
  that leaves something, then the non-empty prefixes that end before a separator, from
  left to right.
\<close>

theorem candidates_in_generation_order:
  assumes "trim nm \<noteq> []"
  shows "containerGroupCandidates nm =
           first_occurrences
             ([trim nm] @
              (if strip_index_suffix (trim nm) \<noteq> [] then [strip_index_suffix (trim nm)] else []) @
              separator_prefixes (trim nm))
         \<and> distinct (containerGroupCandidates nm)"
proof
  show "containerGroupCandidates nm =
           first_occurrences
             ([trim nm] @
              (if strip_index_suffix (trim nm) \<noteq> [] then [strip_index_suffix (trim nm)] else []) @
              separator_prefixes (trim nm))"
    using assms
    by (simp add: containerGroupCandidates_new_Set new_Set_first_occurrences
        replace_index_suffix_eq)
  show "distinct (containerGroupCandidates nm)"
    by (rule distinct_containerGroupCandidates)
qed

theorem candidates_in_generation_order_witness:
  "trim (str '' web-01-2 '') \<noteq> [] \<and>
   containerGroupCandidates (str '' web-01-2 '') = [str ''web-01-2'', str ''web-01'', str ''web'']"
proof -
  have h: "trim (str '' web-01-2 '') \<noteq> []" by code_simp
  have "first_occurrences
             ([trim (str '' web-01-2 '')] @
              (if strip_index_suffix (trim (str '' web-01-2 '')) \<noteq> [] then [strip_index_suffix (trim (str '' web-01-2 ''))] else []) @
              separator_prefixes (trim (str '' web-01-2 ''))) = [str ''web-01-2'', str ''web-01'', str ''web'']"
    by code_simp
  with h candidates_in_generation_order [OF h] show ?thesis by simp
qed

section \<open>Properties of the frequency index\<close>

text \<open>
  The counts of the first loop are the occurrence counts, and with distinct ids
  \<open>candidatesById\<close> gives every record its own candidates.
\<close>

lemma get_count_count_candidate:
  "get_count (count_candidate m x) k = get_count m k + (if k = x then 1 else 0)"
  by (simp add: get_count_def count_candidate_def)

lemma get_count_foldl_count_candidate:
  "distinct xs \<Longrightarrow>
   get_count (foldl count_candidate m xs) k = get_count m k + (if k \<in> set xs then 1 else 0)"
  by (induction xs arbitrary: m) (auto simp: get_count_count_candidate)

lemma new_Set_record_candidates:
  "new_Set (containerGroupCandidates (trim (name_or_id c))) = record_candidates c"
  by (simp add: record_candidates_def new_Set_distinct distinct_containerGroupCandidates)

lemma candidateCounts_index_step:
  "get_count (candidateCounts (index_step st c)) k =
   get_count (candidateCounts st) k + (if k \<in> set (record_candidates c) then 1 else 0)"
  by (simp add: index_step_def Let_def new_Set_record_candidates
      get_count_foldl_count_candidate record_candidates_def distinct_containerGroupCandidates)

lemma candidateCounts_foldl_index_step:
  "get_count (candidateCounts (foldl index_step st cs)) k =
   get_count (candidateCounts st) k + occurrence_count cs k"
  by (induction cs arbitrary: st) (simp_all add: occurrence_count_def candidateCounts_index_step)

lemma candidateCounts_build_index:
  "get_count (candidateCounts (build_index cs)) k = occurrence_count cs k"
proof -
  have "get_count (candidateCounts \<lparr>candidateCounts = Map.empty, candidatesById = Map.empty\<rparr>) k = 0"
    by (simp add: get_count_def)
  then show ?thesis
    by (simp add: build_index_def candidateCounts_foldl_index_step)
qed

lemma candidatesById_index_step:
  "candidatesById (index_step st c) i =
   (if i = id' c then Some (record_candidates c) else candidatesById st i)"
  by (simp add: index_step_def Let_def new_Set_record_candidates)

lemma candidatesById_foldl_index_step:
  "distinct (map id' cs) \<Longrightarrow> c \<in> set cs \<Longrightarrow>
   candidatesById (foldl index_step st cs) (id' c) = Some (record_candidates c)"
proof (induction cs arbitrary: c rule: rev_induct)
  case Nil
  then show ?case by simp
next
  case (snoc x xs)
  show ?case
  proof (cases "id' c = id' x")
    case True
    with snoc.prems have "c = x" by (auto simp: image_iff)
    then show ?thesis by (simp add: candidatesById_index_step)
  next
    case False
    with snoc.prems have "c \<in> set xs" "distinct (map id' xs)" by auto
    with snoc.IH False show ?thesis by (simp add: candidatesById_index_step)
  qed
qed

lemma best_key_build_index:
  "distinct (map id' cs) \<Longrightarrow> c \<in> set cs \<Longrightarrow>
   best_key (build_index cs) c =
     select_key (candidateCounts (build_index cs)) (trim (name_or_id c)) (record_candidates c)"
  by (simp add: best_key_def Let_def build_index_def candidatesById_foldl_index_step)

section \<open>The partition into groups\<close>

text \<open>
  The second loop leaves, for every key in the order of first use, the records of that
  key in the order of the snapshot.
\<close>

lemma groups_push_map:
  "distinct ks \<Longrightarrow>
   groups_push (map (\<lambda>k. (k, F k)) ks) k0 c =
     (if k0 \<in> set ks then map (\<lambda>k. (k, if k = k0 then F k @ [c] else F k)) ks
      else map (\<lambda>k. (k, F k)) ks @ [(k0, [c])])"
  by (induction ks) auto

lemma build_groups_eq:
  "foldl (\<lambda>groups c. groups_push groups (f c) c) [] cs =
   map (\<lambda>k. (k, filter (\<lambda>c. f c = k) cs)) (new_Set (map f cs))"
proof (induction cs rule: rev_induct)
  case Nil
  then show ?case by (simp add: new_Set_def)
next
  case (snoc x xs)
  let ?ks = "new_Set (map f xs)"
  have d: "distinct ?ks" by (simp add: new_Set_def distinct_foldl_set_add)
  have s: "set ?ks = f ` set xs" by (simp add: new_Set_def set_foldl_set_add)
  have n: "new_Set (map f xs @ [f x]) = set_add ?ks (f x)" by (simp add: new_Set_def)
  have e: "\<And>k. (if k = f x then filter (\<lambda>c. f c = k) xs @ [x] else filter (\<lambda>c. f c = k) xs) =
                filter (\<lambda>c. f c = k) (xs @ [x])" by auto
  show ?case
  proof (cases "f x \<in> set ?ks")
    case True
    then show ?thesis
      using snoc.IH d by (simp add: groups_push_map n set_add_def e del: filter_append)
  next
    case False
    then have "f x \<notin> f ` set xs" using s by simp
    then have "filter (\<lambda>c. f c = f x) xs = []"
      unfolding filter_empty_conv by (metis imageI)
    moreover have "\<forall>k\<in>set ?ks. f x \<noteq> k" using False by auto
    ultimately show ?thesis
      using snoc.IH d False by (simp add: groups_push_map n set_add_def cong: map_cong)
  qed
qed

section \<open>Properties of the sort\<close>

lemma mset_insert_sorted: "mset (insert_sorted cmp x xs) = add_mset x (mset xs)"
  by (induction xs) auto

lemma mset_array_sort: "mset (array_sort cmp xs) = mset xs"
  by (induction xs) (auto simp: array_sort_def mset_insert_sorted)

lemma set_array_sort: "set (array_sort cmp xs) = set xs"
  by (metis mset_array_sort set_mset_mset)

lemma length_array_sort: "length (array_sort cmp xs) = length xs"
  by (metis mset_array_sort size_mset)

lemma sorted_insert_sorted:
  assumes "consistent_comparator cmp" "sorted_wrt (\<lambda>a b. cmp a b \<le> 0) xs"
  shows "sorted_wrt (\<lambda>a b. cmp a b \<le> 0) (insert_sorted cmp x xs)"
  using assms(2)
proof (induction xs)
  case Nil
  then show ?case by simp
next
  case (Cons y ys)
  have sym: "\<And>a b. cmp a b > 0 \<Longrightarrow> cmp b a \<le> 0"
    using assms(1) unfolding consistent_comparator_def by (metis less_le_not_le)
  have tr: "\<And>a b c. cmp a b \<le> 0 \<Longrightarrow> cmp b c \<le> 0 \<Longrightarrow> cmp a c \<le> 0"
    using assms(1) unfolding consistent_comparator_def by blast
  show ?case
  proof (cases "cmp x y \<le> 0")
    case True
    then show ?thesis using Cons.prems tr by auto
  next
    case False
    then have "cmp y x \<le> 0" using sym by simp
    moreover have "set (insert_sorted cmp x ys) = insert x (set ys)"
      by (metis mset_insert_sorted set_mset_mset set_mset_add_mset_insert)
    ultimately show ?thesis using False Cons by auto
  qed
qed

lemma sorted_array_sort:
  "consistent_comparator cmp \<Longrightarrow> sorted_wrt (\<lambda>a b. cmp a b \<le> 0) (array_sort cmp xs)"
  by (induction xs) (auto simp: array_sort_def sorted_insert_sorted)

section \<open>The shape of the output\<close>

lemma groupContainersByNamePrefix_eq:
  "groupContainersByNamePrefix lc cs =
   array_sort (group_compare lc)
     (map (\<lambda>k. make_group lc (k, filter (\<lambda>c. best_key (build_index cs) c = k) cs))
        (new_Set (map (best_key (build_index cs)) cs)))"
  by (simp add: groupContainersByNamePrefix_def Let_def build_groups_def build_groups_eq comp_def)

lemma set_groupContainersByNamePrefix:
  "set (groupContainersByNamePrefix lc cs) =
   (\<lambda>k. make_group lc (k, filter (\<lambda>c. best_key (build_index cs) c = k) cs)) `
     (best_key (build_index cs) ` set cs)"
  by (simp add: groupContainersByNamePrefix_eq set_array_sort new_Set_def set_foldl_set_add)

lemma key_make_group: "key (make_group lc (k, items)) = k"
  by (simp add: make_group_def Let_def)

lemma containers_make_group:
  "containers (make_group lc (k, items)) = array_sort (member_compare lc) items"
  by (simp add: make_group_def Let_def)

lemma length_filter_array_sort:
  "length (filter P (array_sort cmp xs)) = length (filter P xs)"
proof -
  have "mset (filter P (array_sort cmp xs)) = mset (filter P xs)"
    by (simp add: mset_array_sort)
  then show ?thesis by (metis size_mset)
qed

lemma runningCount_make_group:
  "runningCount (make_group lc (k, items)) =
   int (length (filter is_running (containers (make_group lc (k, items)))))"
  by (simp add: make_group_def Let_def length_filter_array_sort)

lemma stoppedCount_make_group:
  "stoppedCount (make_group lc (k, items)) =
   int (length (filter (\<lambda>c. \<not> is_running c) (containers (make_group lc (k, items)))))"
proof -
  have "length (filter is_running items) + length (filter (\<lambda>c. \<not> is_running c) items) = length items"
    by (rule sum_length_filter_compl)
  then show ?thesis
    by (simp add: make_group_def Let_def length_filter_array_sort)
qed

lemma group_in_output:
  assumes "g \<in> set (groupContainersByNamePrefix lc cs)"
  obtains k where "k \<in> best_key (build_index cs) ` set cs"
    and "g = make_group lc (k, filter (\<lambda>c. best_key (build_index cs) c = k) cs)"
  using assms unfolding set_groupContainersByNamePrefix by blast

lemma sum_list_partition_mset:
  "distinct ks \<Longrightarrow> f ` set cs \<subseteq> set ks \<Longrightarrow>
   (\<Sum>k\<leftarrow>ks. mset (filter (\<lambda>c. f c = k) cs)) = mset cs"
proof (induction ks arbitrary: cs)
  case Nil
  then show ?case by simp
next
  case (Cons k ks)
  let ?rest = "filter (\<lambda>c. f c \<noteq> k) cs"
  have a: "\<And>k'. k' \<in> set ks \<Longrightarrow> filter (\<lambda>c. f c = k') cs = filter (\<lambda>c. f c = k') ?rest"
    using Cons.prems(1) by (auto intro!: filter_cong)
  have "f ` set ?rest \<subseteq> set ks" using Cons.prems(2) by auto
  with Cons.IH [of ?rest] Cons.prems(1)
  have "(\<Sum>k'\<leftarrow>ks. mset (filter (\<lambda>c. f c = k') ?rest)) = mset ?rest" by simp
  moreover have "(\<Sum>k'\<leftarrow>ks. mset (filter (\<lambda>c. f c = k') cs)) =
                 (\<Sum>k'\<leftarrow>ks. mset (filter (\<lambda>c. f c = k') ?rest))"
  proof -
    have "map (\<lambda>k'. mset (filter (\<lambda>c. f c = k') cs)) ks =
          map (\<lambda>k'. mset (filter (\<lambda>c. f c = k') ?rest)) ks"
    proof (rule map_cong [OF refl])
      fix k' assume "k' \<in> set ks"
      then show "mset (filter (\<lambda>c. f c = k') cs) = mset (filter (\<lambda>c. f c = k') ?rest)"
        using a by (rule_tac arg_cong [where f = mset])
    qed
    then show ?thesis by (rule arg_cong)
  qed
  moreover have "mset (filter (\<lambda>c. f c = k) cs) + mset ?rest = mset cs"
    by (induction cs) auto
  ultimately show ?case by simp
qed

lemma mset_concat_array_sort:
  "mset (concat (map h (array_sort cmp xs))) = mset (concat (map h xs))"
proof -
  have "mset (concat (map h ys)) = (\<Sum>\<^sub># (image_mset (\<lambda>x. mset (h x)) (mset ys)))" for ys
    by (induction ys) auto
  then show ?thesis by (simp add: mset_array_sort)
qed

lemma mset_members:
  "mset (concat (map containers (groupContainersByNamePrefix lc cs))) = mset cs"
proof -
  let ?f = "best_key (build_index cs)"
  let ?ks = "new_Set (map ?f cs)"
  have d: "distinct ?ks" by (simp add: new_Set_def distinct_foldl_set_add)
  have s: "?f ` set cs \<subseteq> set ?ks" by (simp add: new_Set_def set_foldl_set_add)
  have "mset (concat (map containers (groupContainersByNamePrefix lc cs))) =
        mset (concat (map containers
          (map (\<lambda>k. make_group lc (k, filter (\<lambda>c. ?f c = k) cs)) ?ks)))"
    by (simp only: groupContainersByNamePrefix_eq mset_concat_array_sort)
  also have "\<dots> = (\<Sum>k\<leftarrow>?ks. mset (filter (\<lambda>c. ?f c = k) cs))"
    by (simp add: mset_concat comp_def containers_make_group mset_array_sort)
  also have "\<dots> = mset cs" using d s by (rule sum_list_partition_mset)
  finally show ?thesis .
qed

lemma distinct_keys:
  "distinct (map key (groupContainersByNamePrefix lc cs))"
proof -
  let ?f = "best_key (build_index cs)"
  let ?ks = "new_Set (map ?f cs)"
  have d: "distinct ?ks" by (simp add: new_Set_def distinct_foldl_set_add)
  have "mset (map key (groupContainersByNamePrefix lc cs)) = mset ?ks"
  proof -
    have a: "map key (map (\<lambda>k. make_group lc (k, filter (\<lambda>c. ?f c = k) cs)) ?ks) = ?ks"
      by (simp add: comp_def key_make_group)
    have "mset (map key (array_sort cmp xs)) = mset (map key xs)" for cmp and xs :: "ContainerGroup list"
      by (simp add: mset_array_sort)
    then show ?thesis
      by (simp only: groupContainersByNamePrefix_eq a)
  qed
  then show ?thesis using d by (metis mset_eq_imp_distinct_iff)
qed

lemma members_of_group:
  assumes "g \<in> set (groupContainersByNamePrefix lc cs)"
  shows "set (containers g) = {c \<in> set cs. best_key (build_index cs) c = key g}"
    and "containers g \<noteq> []"
proof -
  from assms obtain k where k: "k \<in> best_key (build_index cs) ` set cs"
    and g: "g = make_group lc (k, filter (\<lambda>c. best_key (build_index cs) c = k) cs)"
    by (rule group_in_output)
  show "set (containers g) = {c \<in> set cs. best_key (build_index cs) c = key g}"
    by (simp add: g containers_make_group key_make_group set_array_sort)
  from k have "filter (\<lambda>c. best_key (build_index cs) c = k) cs \<noteq> []"
    by (auto simp: filter_empty_conv)
  then show "containers g \<noteq> []"
    by (metis g containers_make_group length_array_sort length_0_conv)
qed

lemma group_of_record:
  assumes "c \<in> set cs"
  shows "\<exists>!g. g \<in> set (groupContainersByNamePrefix lc cs) \<and> c \<in> set (containers g)"
proof -
  let ?f = "best_key (build_index cs)"
  let ?g = "make_group lc (?f c, filter (\<lambda>d. ?f d = ?f c) cs)"
  have g: "?g \<in> set (groupContainersByNamePrefix lc cs)"
    using assms by (auto simp: set_groupContainersByNamePrefix)
  have "c \<in> set (containers ?g)"
    using assms by (simp add: containers_make_group set_array_sort)
  moreover have "g' = ?g"
    if "g' \<in> set (groupContainersByNamePrefix lc cs)" "c \<in> set (containers g')" for g'
  proof -
    from that have "key g' = ?f c" by (simp add: members_of_group(1))
    then have "key g' = key ?g" by (simp add: key_make_group)
    moreover have "inj_on key (set (groupContainersByNamePrefix lc cs))"
      using distinct_keys [of lc cs] by (simp add: distinct_map)
    ultimately show ?thesis using that(1) g by (meson inj_onD)
  qed
  ultimately show ?thesis using g by blast
qed

text \<open>
  Claim C3.  Every input record appears in exactly one output group: the member lists of
  all groups together hold every input record as often as the input does, nothing lost
  and nothing twice, each record is a member of one and only one group, and no group is
  without members.
\<close>

theorem every_record_in_exactly_one_group:
  "mset (concat (map containers (groupContainersByNamePrefix lc cs))) = mset cs \<and>
   (\<forall>c\<in>set cs. \<exists>!g. g \<in> set (groupContainersByNamePrefix lc cs) \<and> c \<in> set (containers g)) \<and>
   (\<forall>g\<in>set (groupContainersByNamePrefix lc cs). containers g \<noteq> [])"
  using mset_members group_of_record members_of_group(2) by blast

theorem every_record_in_exactly_one_group_witness:
  "map key (groupContainersByNamePrefix codeUnitCompare scenario_A) = [str ''web'', str ''api-1''] \<and>
   mset (concat (map containers (groupContainersByNamePrefix codeUnitCompare scenario_A))) =
     mset scenario_A \<and>
   list_all (\<lambda>c. \<exists>!g. g \<in> set (groupContainersByNamePrefix codeUnitCompare scenario_A) \<and>
                         c \<in> set (containers g)) scenario_A \<and>
   list_all (\<lambda>g. containers g \<noteq> []) (groupContainersByNamePrefix codeUnitCompare scenario_A)"
proof -
  have "map key (groupContainersByNamePrefix codeUnitCompare scenario_A) = [str ''web'', str ''api-1'']"
    by code_simp
  then show ?thesis
    using every_record_in_exactly_one_group [of codeUnitCompare scenario_A]
    unfolding list_all_iff by blast
qed

text \<open>
  Claim C8.  In every output group \<open>runningCount\<close> is the number of members whose
  state is \<open>running\<close>, \<open>stoppedCount\<close> is the number of the other members, and the
  two add up to the length of the member list.
\<close>

theorem group_counts:
  "\<forall>g\<in>set (groupContainersByNamePrefix lc cs).
     runningCount g = int (length (filter is_running (containers g))) \<and>
     stoppedCount g = int (length (filter (\<lambda>c. \<not> is_running c) (containers g))) \<and>
     runningCount g + stoppedCount g = int (length (containers g))"
proof
  fix g assume "g \<in> set (groupContainersByNamePrefix lc cs)"
  then obtain k items where g: "g = make_group lc (k, items)"
    by (auto elim: group_in_output)
  have "length (filter is_running (containers g)) +
        length (filter (\<lambda>c. \<not> is_running c) (containers g)) = length (containers g)"
    by (rule sum_length_filter_compl)
  then show "runningCount g = int (length (filter is_running (containers g))) \<and>
     stoppedCount g = int (length (filter (\<lambda>c. \<not> is_running c) (containers g))) \<and>
     runningCount g + stoppedCount g = int (length (containers g))"
    unfolding g runningCount_make_group stoppedCount_make_group by linarith
qed

theorem group_counts_witness:
  "map (\<lambda>g. (runningCount g, stoppedCount g, map state (containers g)))
     (groupContainersByNamePrefix codeUnitCompare scenario_B) =
     [(2, 1, [str ''running'', str ''running'', str ''exited''])] \<and>
   list_all (\<lambda>g.
     runningCount g = int (length (filter is_running (containers g))) \<and>
     stoppedCount g = int (length (filter (\<lambda>c. \<not> is_running c) (containers g))) \<and>
     runningCount g + stoppedCount g = int (length (containers g)))
     (groupContainersByNamePrefix codeUnitCompare scenario_B)"
proof -
  have "map (\<lambda>g. (runningCount g, stoppedCount g, map state (containers g)))
     (groupContainersByNamePrefix codeUnitCompare scenario_B) =
     [(2, 1, [str ''running'', str ''running'', str ''exited''])]"
    by code_simp
  then show ?thesis
    using group_counts [of codeUnitCompare scenario_B]
    unfolding list_all_iff by blast
qed

section \<open>Consistent comparators and the two orders\<close>

lemma consistent_comparatorI:
  assumes "\<And>a b. (cmp a b < 0) = (cmp b a > 0)"
    and "\<And>a b c. cmp a b \<le> 0 \<Longrightarrow> cmp b c \<le> 0 \<Longrightarrow> cmp a c \<le> 0"
  shows "consistent_comparator cmp"
  using assms unfolding consistent_comparator_def by blast

lemma consistent_comparator_sym:
  "consistent_comparator cmp \<Longrightarrow> (cmp a b < 0) = (cmp b a > 0)"
  unfolding consistent_comparator_def by blast

lemma consistent_comparator_trans:
  "consistent_comparator cmp \<Longrightarrow> cmp a b \<le> 0 \<Longrightarrow> cmp b c \<le> 0 \<Longrightarrow> cmp a c \<le> 0"
  unfolding consistent_comparator_def by blast

lemma consistent_comparator_zero:
  "consistent_comparator cmp \<Longrightarrow> (cmp a b = 0) = (cmp b a = 0)"
  using consistent_comparator_sym [of cmp a b] consistent_comparator_sym [of cmp b a]
  by linarith

lemma consistent_comparator_le_iff:
  "consistent_comparator cmp \<Longrightarrow> (cmp a b \<le> 0) = (\<not> cmp b a < 0)"
  using consistent_comparator_sym [of cmp a b] consistent_comparator_sym [of cmp b a]
  by linarith

lemma consistent_codeUnitCompare: "consistent_comparator codeUnitCompare"
proof (rule consistent_comparatorI)
  show "(codeUnitCompare a b < 0) = (codeUnitCompare b a > 0)" for a b
    by (auto simp: codeUnitCompare_def)
  show "codeUnitCompare a c \<le> 0" if "codeUnitCompare a b \<le> 0" "codeUnitCompare b c \<le> 0" for a b c
    using that by (auto simp: codeUnitCompare_def split: if_splits)
qed

text \<open>
  A comparator that compares by a first key and, where the first comparator answers 0, by
  a second one.
\<close>

lemma consistent_then:
  assumes p: "consistent_comparator p" and q: "consistent_comparator q"
  shows "consistent_comparator (\<lambda>a b. if p a b \<noteq> 0 then p a b else q a b)"
proof (rule consistent_comparatorI)
  fix a b
  show "((if p a b \<noteq> 0 then p a b else q a b) < 0) = ((if p b a \<noteq> 0 then p b a else q b a) > 0)"
    using consistent_comparator_sym [OF p, of a b] consistent_comparator_sym [OF p, of b a]
      consistent_comparator_sym [OF q, of a b]
    by (auto split: if_splits)
next
  fix a b c
  assume ab: "(if p a b \<noteq> 0 then p a b else q a b) \<le> 0"
    and bc: "(if p b c \<noteq> 0 then p b c else q b c) \<le> 0"
  from ab have pab: "p a b \<le> 0" by (auto split: if_splits)
  from bc have pbc: "p b c \<le> 0" by (auto split: if_splits)
  have pac: "p a c \<le> 0" using p pab pbc by (rule consistent_comparator_trans)
  show "(if p a c \<noteq> 0 then p a c else q a c) \<le> 0"
  proof (cases "p a c = 0")
    case False
    with pac show ?thesis by simp
  next
    case True
    then have pca: "p c a \<le> 0" using consistent_comparator_zero [OF p, of a c] by simp
    have "p c b \<le> 0" using p pca pab by (rule consistent_comparator_trans)
    then have "p b c = 0" using pbc consistent_comparator_le_iff [OF p, of c b] by linarith
    have "p b a \<le> 0" using p pbc pca by (rule consistent_comparator_trans)
    then have "p a b = 0" using pab consistent_comparator_le_iff [OF p, of b a] by linarith
    have "q a b \<le> 0" using ab \<open>p a b = 0\<close> by simp
    moreover have "q b c \<le> 0" using bc \<open>p b c = 0\<close> by simp
    ultimately have "q a c \<le> 0" using q by (metis consistent_comparator_trans)
    with True show ?thesis by simp
  qed
qed

lemma consistent_on_key:
  "consistent_comparator p \<Longrightarrow> consistent_comparator (\<lambda>a b. p (f a) (f b))"
  unfolding consistent_comparator_def by blast

lemma consistent_flag_compare: "consistent_comparator flag_compare"
  by (rule consistent_comparatorI) (auto simp: flag_compare_def split: if_splits)

lemma consistent_size_compare: "consistent_comparator size_compare"
  by (rule consistent_comparatorI) (auto simp: size_compare_def)

lemma member_compare_then:
  "member_compare lc =
   (\<lambda>a b. if flag_compare (is_running a) (is_running b) \<noteq> 0
           then flag_compare (is_running a) (is_running b)
           else if lc (name_or_id a) (name_or_id b) \<noteq> 0 then lc (name_or_id a) (name_or_id b)
           else lc (id' a) (id' b))"
  by (intro ext) (simp add: member_compare_def flag_compare_def Let_def)

lemma group_compare_then:
  "group_compare lc =
   (\<lambda>a b. if flag_compare (runningCount a > 0) (runningCount b > 0) \<noteq> 0
           then flag_compare (runningCount a > 0) (runningCount b > 0)
           else if size_compare (length (containers a)) (length (containers b)) \<noteq> 0
             then size_compare (length (containers a)) (length (containers b))
           else lc (key a) (key b))"
  by (intro ext) (auto simp: group_compare_def flag_compare_def size_compare_def Let_def)

lemma consistent_member_compare:
  assumes "consistent_comparator lc"
  shows "consistent_comparator (member_compare lc)"
  unfolding member_compare_then
  by (intro consistent_then consistent_on_key [where p = flag_compare and f = is_running]
      consistent_on_key [where p = lc and f = name_or_id]
      consistent_on_key [where p = lc and f = id'] consistent_flag_compare assms)

lemma consistent_group_compare:
  assumes "consistent_comparator lc"
  shows "consistent_comparator (group_compare lc)"
  unfolding group_compare_then
  by (intro consistent_then
      consistent_on_key [where p = flag_compare and f = "\<lambda>g. runningCount g > 0"]
      consistent_on_key [where p = size_compare and f = "\<lambda>g. length (containers g)"]
      consistent_on_key [where p = lc and f = key] consistent_flag_compare
      consistent_size_compare assms)

lemma consistent_caseFoldCompare: "consistent_comparator caseFoldCompare"
proof -
  have r: "consistent_comparator (\<lambda>a b. codeUnitCompare b a)"
  proof (rule consistent_comparatorI)
    show "(codeUnitCompare b a < 0) = (codeUnitCompare a b > 0)" for a b
      by (auto simp: codeUnitCompare_def)
    show "codeUnitCompare c a \<le> 0" if "codeUnitCompare b a \<le> 0" "codeUnitCompare c b \<le> 0" for a b c
      using that by (auto simp: codeUnitCompare_def split: if_splits)
  qed
  have "caseFoldCompare =
        (\<lambda>a b. if codeUnitCompare (map fold_case a) (map fold_case b) \<noteq> 0
                then codeUnitCompare (map fold_case a) (map fold_case b)
                else codeUnitCompare b a)"
    by (intro ext) (simp add: caseFoldCompare_def)
  then show ?thesis
    using consistent_then [OF consistent_on_key [OF consistent_codeUnitCompare, of "map fold_case"] r]
    by simp
qed

lemma member_compare_order: "member_compare lc a b \<le> 0 \<Longrightarrow> member_order lc a b"
  by (auto simp: member_compare_def member_order_def Let_def split: if_splits)

lemma has_running_iff:
  assumes "g \<in> set (groupContainersByNamePrefix lc cs)"
  shows "has_running g = (runningCount g > 0)"
proof -
  from assms obtain k items where g: "g = make_group lc (k, items)"
    by (auto elim: group_in_output)
  have "(\<exists>c\<in>set xs. is_running c) = (length (filter is_running xs) > 0)" for xs
    by (simp add: filter_empty_conv)
  then show ?thesis
    unfolding has_running_def g runningCount_make_group by simp
qed

lemma group_compare_order:
  "has_running a = (runningCount a > 0) \<Longrightarrow> has_running b = (runningCount b > 0) \<Longrightarrow>
   group_compare lc a b \<le> 0 \<Longrightarrow> group_order lc a b"
  by (auto simp: group_compare_def group_order_def Let_def split: if_splits)

lemma members_sorted:
  assumes "consistent_comparator lc" "g \<in> set (groupContainersByNamePrefix lc cs)"
  shows "sorted_wrt (member_order lc) (containers g)"
proof -
  from assms(2) obtain k items where g: "g = make_group lc (k, items)"
    by (auto elim: group_in_output)
  have "sorted_wrt (\<lambda>a b. member_compare lc a b \<le> 0) (containers g)"
    unfolding g containers_make_group
    using assms(1) by (intro sorted_array_sort consistent_member_compare)
  then show ?thesis
    by (rule sorted_wrt_mono_rel [rotated]) (rule member_compare_order)
qed

lemma groups_sorted:
  assumes "consistent_comparator lc"
  shows "sorted_wrt (group_order lc) (groupContainersByNamePrefix lc cs)"
proof -
  have "sorted_wrt (\<lambda>a b. group_compare lc a b \<le> 0) (groupContainersByNamePrefix lc cs)"
    unfolding groupContainersByNamePrefix_eq
    using assms by (intro sorted_array_sort consistent_group_compare)
  then show ?thesis
    by (rule sorted_wrt_mono_rel [rotated]) (simp add: group_compare_order has_running_iff)
qed

section \<open>The scenarios, for all ids and all other fields\<close>

lemma str_simps:
  "str [] = []" "str (c # cs) = of_nat (of_char c) # str cs"
  by (simp_all add: str_def)

lemma scenario_B_general:
  assumes lc: "lc (str ''db'') (str ''db-replica-2'') < 0"
    and ids: "i1 \<noteq> i2" "i1 \<noteq> i3" "i2 \<noteq> i3"
    and st: "s2 \<noteq> str ''running''"
  shows "groupContainersByNamePrefix lc
           [\<lparr>id' = i1, name = str ''db'', image' = m1, state = str ''running'', status = t1, ports = p1\<rparr>,
            \<lparr>id' = i2, name = str ''db-replica-1'', image' = m2, state = s2, status = t2, ports = p2\<rparr>,
            \<lparr>id' = i3, name = str ''db-replica-2'', image' = m3, state = str ''running'', status = t3, ports = p3\<rparr>] =
         [\<lparr>key = str ''db'',
           containers =
             [\<lparr>id' = i1, name = str ''db'', image' = m1, state = str ''running'', status = t1, ports = p1\<rparr>,
              \<lparr>id' = i3, name = str ''db-replica-2'', image' = m3, state = str ''running'', status = t3, ports = p3\<rparr>,
              \<lparr>id' = i2, name = str ''db-replica-1'', image' = m2, state = s2, status = t2, ports = p2\<rparr>],
           runningCount = 2, stoppedCount = 1\<rparr>]"
proof -
  have n1: "trim (str ''db'') = str ''db''" by code_simp
  have n2: "trim (str ''db-replica-1'') = str ''db-replica-1''" by code_simp
  have n3: "trim (str ''db-replica-2'') = str ''db-replica-2''" by code_simp
  have c1: "containerGroupCandidates (str ''db'') = [str ''db'']" by code_simp
  have c2: "containerGroupCandidates (str ''db-replica-1'') =
              [str ''db-replica-1'', str ''db-replica'', str ''db'']" by code_simp
  have c3: "containerGroupCandidates (str ''db-replica-2'') =
              [str ''db-replica-2'', str ''db-replica'', str ''db'']" by code_simp
  have ne: "str ''db'' \<noteq> []" "str ''db-replica-1'' \<noteq> []" "str ''db-replica-2'' \<noteq> []"
    by (simp_all add: str_def)
  have neq: "str ''db-replica-1'' \<noteq> str ''db''" "str ''db-replica'' \<noteq> str ''db''"
     "str ''db-replica-2'' \<noteq> str ''db''" "str ''db-replica-1'' \<noteq> str ''db-replica''"
     "str ''db-replica-2'' \<noteq> str ''db-replica''" "str ''db-replica-1'' \<noteq> str ''db-replica-2''"
    by (simp_all add: str_def)
  note neq' = neq neq [symmetric]
  show ?thesis
    using lc ids st ids [symmetric]
    by (simp add: groupContainersByNamePrefix_def build_index_def index_step_def Let_def
        name_or_id_def ne n1 n2 n3 c1 c2 c3 new_Set_def set_add_def neq' count_candidate_def
        get_count_def build_groups_def best_key_def select_key_def best_step_def
        make_group_def is_running_def array_sort_def member_compare_def group_compare_def)
qed

lemma scenario_A_general:
  assumes lc: "lc (str ''web-1'') (str ''web-2'') < 0"
    and ids: "i1 \<noteq> i2" "i1 \<noteq> i3" "i2 \<noteq> i3"
  shows "groupContainersByNamePrefix lc
           [\<lparr>id' = i1, name = str ''web-1'', image' = m1, state = str ''running'', status = t1, ports = p1\<rparr>,
            \<lparr>id' = i2, name = str ''web-2'', image' = m2, state = str ''running'', status = t2, ports = p2\<rparr>,
            \<lparr>id' = i3, name = str ''api-1'', image' = m3, state = str ''running'', status = t3, ports = p3\<rparr>] =
         [\<lparr>key = str ''web'',
           containers =
             [\<lparr>id' = i1, name = str ''web-1'', image' = m1, state = str ''running'', status = t1, ports = p1\<rparr>,
              \<lparr>id' = i2, name = str ''web-2'', image' = m2, state = str ''running'', status = t2, ports = p2\<rparr>],
           runningCount = 2, stoppedCount = 0\<rparr>,
          \<lparr>key = str ''api-1'',
           containers =
             [\<lparr>id' = i3, name = str ''api-1'', image' = m3, state = str ''running'', status = t3, ports = p3\<rparr>],
           runningCount = 1, stoppedCount = 0\<rparr>]"
proof -
  have n1: "trim (str ''web-1'') = str ''web-1''" by code_simp
  have n2: "trim (str ''web-2'') = str ''web-2''" by code_simp
  have n3: "trim (str ''api-1'') = str ''api-1''" by code_simp
  have c1: "containerGroupCandidates (str ''web-1'') = [str ''web-1'', str ''web'']" by code_simp
  have c2: "containerGroupCandidates (str ''web-2'') = [str ''web-2'', str ''web'']" by code_simp
  have c3: "containerGroupCandidates (str ''api-1'') = [str ''api-1'', str ''api'']" by code_simp
  have ne: "str ''web-1'' \<noteq> []" "str ''web-2'' \<noteq> []" "str ''api-1'' \<noteq> []"
    by (simp_all add: str_def)
  have neq: "str ''web-1'' \<noteq> str ''web''" "str ''web-2'' \<noteq> str ''web''"
     "str ''web-1'' \<noteq> str ''web-2''" "str ''api-1'' \<noteq> str ''api''"
     "str ''api-1'' \<noteq> str ''web''" "str ''api'' \<noteq> str ''web''"
     "str ''api-1'' \<noteq> str ''web-1''" "str ''api'' \<noteq> str ''web-1''"
     "str ''api-1'' \<noteq> str ''web-2''" "str ''api'' \<noteq> str ''web-2''"
    by (simp_all add: str_def)
  note neq' = neq neq [symmetric]
  show ?thesis
    using lc ids ids [symmetric]
    by (simp add: groupContainersByNamePrefix_def build_index_def index_step_def Let_def
        name_or_id_def ne n1 n2 n3 c1 c2 c3 new_Set_def set_add_def neq' count_candidate_def
        get_count_def build_groups_def best_key_def select_key_def best_step_def
        make_group_def is_running_def array_sort_def member_compare_def group_compare_def)
qed

text \<open>
  Claim C4, as amended.  Within every output group the members are ordered with the
  running ones before the others and, among members of the same kind, in ascending
  order of name-or-id, ties broken by id; the order of strings is the one
  \<open>localeCompare\<close> gives, for every consistent comparator, and not the lexicographic
  order of code units.  The snapshot of \<open>db\<close> (running), \<open>db-replica-1\<close> (not running)
  and \<open>db-replica-2\<close> (running) gives one group keyed \<open>db\<close> with the members in the
  order \<open>db\<close>, \<open>db-replica-2\<close>, \<open>db-replica-1\<close>, whatever the distinct ids and the
  other fields are, when \<open>db\<close> is ordered before \<open>db-replica-2\<close>.
\<close>

theorem members_ordered:
  "(consistent_comparator lc \<longrightarrow>
      (\<forall>g\<in>set (groupContainersByNamePrefix lc cs). sorted_wrt (member_order lc) (containers g))) \<and>
   (lc (str ''db'') (str ''db-replica-2'') < 0 \<and> i1 \<noteq> i2 \<and> i1 \<noteq> i3 \<and> i2 \<noteq> i3 \<and>
    s2 \<noteq> str ''running'' \<longrightarrow>
      groupContainersByNamePrefix lc
        [\<lparr>id' = i1, name = str ''db'', image' = m1, state = str ''running'', status = t1, ports = p1\<rparr>,
         \<lparr>id' = i2, name = str ''db-replica-1'', image' = m2, state = s2, status = t2, ports = p2\<rparr>,
         \<lparr>id' = i3, name = str ''db-replica-2'', image' = m3, state = str ''running'', status = t3, ports = p3\<rparr>] =
      [\<lparr>key = str ''db'',
        containers =
          [\<lparr>id' = i1, name = str ''db'', image' = m1, state = str ''running'', status = t1, ports = p1\<rparr>,
           \<lparr>id' = i3, name = str ''db-replica-2'', image' = m3, state = str ''running'', status = t3, ports = p3\<rparr>,
           \<lparr>id' = i2, name = str ''db-replica-1'', image' = m2, state = s2, status = t2, ports = p2\<rparr>],
        runningCount = 2, stoppedCount = 1\<rparr>])"
  using members_sorted [of lc _ cs] scenario_B_general [of lc i1 i2 i3 s2 m1 t1 p1 m2 t2 p2 m3 t3 p3]
  by blast

theorem members_ordered_witness:
  "consistent_comparator codeUnitCompare \<and>
   list_all (\<lambda>g. sorted_wrt (member_order codeUnitCompare) (containers g))
     (groupContainersByNamePrefix codeUnitCompare scenario_B) \<and>
   codeUnitCompare (str ''db'') (str ''db-replica-2'') < 0 \<and>
   str ''exited'' \<noteq> str ''running'' \<and>
   map (\<lambda>g. (key g, map name (containers g))) (groupContainersByNamePrefix codeUnitCompare scenario_B) =
     [(str ''db'', [str ''db'', str ''db-replica-2'', str ''db-replica-1''])]"
proof -
  have a: "codeUnitCompare (str ''db'') (str ''db-replica-2'') < 0" by code_simp
  have b: "str ''exited'' \<noteq> str ''running''" by (simp add: str_def)
  have c: "str ''1'' \<noteq> str ''2''" "str ''1'' \<noteq> str ''3''" "str ''2'' \<noteq> str ''3''"
    by (simp_all add: str_def)
  note th = members_ordered [of codeUnitCompare scenario_B "str ''1''" "str ''2''" "str ''3''"
        "str ''exited''" "[]" "[]" "[]" "[]" "[]" "[]" "[]" "[]" "[]"]
  have g1: "\<forall>g\<in>set (groupContainersByNamePrefix codeUnitCompare scenario_B).
              sorted_wrt (member_order codeUnitCompare) (containers g)"
    using th consistent_codeUnitCompare by blast
  have g2: "map (\<lambda>g. (key g, map name (containers g)))
              (groupContainersByNamePrefix codeUnitCompare scenario_B) =
            [(str ''db'', [str ''db'', str ''db-replica-2'', str ''db-replica-1''])]"
    using th a b c unfolding scenario_B_def container_def by simp
  show ?thesis
    using g1 g2 a b consistent_codeUnitCompare unfolding list_all_iff by blast
qed

text \<open>
  The claim as stated, with the lexicographic order of strings, fails: the order is the
  one \<open>localeCompare\<close> gives.  Under the case-folding comparator the group keyed \<open>x\<close>
  lists \<open>x-a\<close> before \<open>x-C\<close>, while \<open>x-C\<close> is the smaller string in the lexicographic
  order of code units.
\<close>

theorem members_ordered_counterexample:
  "consistent_comparator caseFoldCompare \<and>
   map (\<lambda>g. (key g, map name (containers g)))
     (groupContainersByNamePrefix caseFoldCompare
        [container ''1'' ''x-C'' ''running'', container ''2'' ''x-a'' ''running'']) =
     [(str ''x'', [str ''x-a'', str ''x-C''])] \<and>
   str ''x-C'' < str ''x-a''"
proof -
  have "map (\<lambda>g. (key g, map name (containers g)))
     (groupContainersByNamePrefix caseFoldCompare
        [container ''1'' ''x-C'' ''running'', container ''2'' ''x-a'' ''running'']) =
     [(str ''x'', [str ''x-a'', str ''x-C''])]"
    by code_simp
  moreover have "str ''x-C'' < str ''x-a''" by code_simp
  ultimately show ?thesis using consistent_caseFoldCompare by simp
qed

text \<open>
  Claim C5, as amended.  In the output sequence the groups with at least one running
  member come before the groups with none; among groups of the same kind the larger come
  first, and groups of equal size are in ascending order of key; the order of strings is
  the one \<open>localeCompare\<close> gives, for every consistent comparator, and not the
  lexicographic order of code units.  The snapshot of \<open>web-1\<close>, \<open>web-2\<close> and
  \<open>api-1\<close>, all running, gives the group keyed \<open>web\<close> with the members \<open>web-1\<close>,
  \<open>web-2\<close>, followed by the singleton group keyed \<open>api-1\<close>, whatever the distinct ids
  and the other fields are, when \<open>web-1\<close> is ordered before \<open>web-2\<close>.
\<close>

theorem groups_ordered:
  "(consistent_comparator lc \<longrightarrow> sorted_wrt (group_order lc) (groupContainersByNamePrefix lc cs)) \<and>
   (lc (str ''web-1'') (str ''web-2'') < 0 \<and> i1 \<noteq> i2 \<and> i1 \<noteq> i3 \<and> i2 \<noteq> i3 \<longrightarrow>
      groupContainersByNamePrefix lc
        [\<lparr>id' = i1, name = str ''web-1'', image' = m1, state = str ''running'', status = t1, ports = p1\<rparr>,
         \<lparr>id' = i2, name = str ''web-2'', image' = m2, state = str ''running'', status = t2, ports = p2\<rparr>,
         \<lparr>id' = i3, name = str ''api-1'', image' = m3, state = str ''running'', status = t3, ports = p3\<rparr>] =
      [\<lparr>key = str ''web'',
        containers =
          [\<lparr>id' = i1, name = str ''web-1'', image' = m1, state = str ''running'', status = t1, ports = p1\<rparr>,
           \<lparr>id' = i2, name = str ''web-2'', image' = m2, state = str ''running'', status = t2, ports = p2\<rparr>],
        runningCount = 2, stoppedCount = 0\<rparr>,
       \<lparr>key = str ''api-1'',
        containers =
          [\<lparr>id' = i3, name = str ''api-1'', image' = m3, state = str ''running'', status = t3, ports = p3\<rparr>],
        runningCount = 1, stoppedCount = 0\<rparr>])"
  using groups_sorted [of lc cs] scenario_A_general [of lc i1 i2 i3 m1 t1 p1 m2 t2 p2 m3 t3 p3]
  by blast

theorem groups_ordered_witness:
  "consistent_comparator codeUnitCompare \<and>
   sorted_wrt (group_order codeUnitCompare) (groupContainersByNamePrefix codeUnitCompare scenario_A) \<and>
   codeUnitCompare (str ''web-1'') (str ''web-2'') < 0 \<and>
   map (\<lambda>g. (key g, map name (containers g))) (groupContainersByNamePrefix codeUnitCompare scenario_A) =
     [(str ''web'', [str ''web-1'', str ''web-2'']), (str ''api-1'', [str ''api-1''])]"
proof -
  have a: "codeUnitCompare (str ''web-1'') (str ''web-2'') < 0" by code_simp
  have c: "str ''1'' \<noteq> str ''2''" "str ''1'' \<noteq> str ''3''" "str ''2'' \<noteq> str ''3''"
    by (simp_all add: str_def)
  note th = groups_ordered [of codeUnitCompare scenario_A "str ''1''" "str ''2''" "str ''3''"
        "[]" "[]" "[]" "[]" "[]" "[]" "[]" "[]" "[]"]
  have g1: "sorted_wrt (group_order codeUnitCompare)
              (groupContainersByNamePrefix codeUnitCompare scenario_A)"
    using th consistent_codeUnitCompare by blast
  have g2: "map (\<lambda>g. (key g, map name (containers g)))
              (groupContainersByNamePrefix codeUnitCompare scenario_A) =
            [(str ''web'', [str ''web-1'', str ''web-2'']), (str ''api-1'', [str ''api-1''])]"
    using th a c unfolding scenario_A_def container_def by simp
  show ?thesis
    using g1 g2 a consistent_codeUnitCompare by blast
qed

text \<open>
  The claim as stated, with the lexicographic order of keys, fails: the order is the one
  \<open>localeCompare\<close> gives.  Under the case-folding comparator the singleton group keyed
  \<open>api\<close> comes before the singleton group keyed \<open>Box\<close>, while \<open>Box\<close> is the smaller
  string in the lexicographic order of code units.
\<close>

theorem groups_ordered_counterexample:
  "consistent_comparator caseFoldCompare \<and>
   map (\<lambda>g. (key g, map name (containers g)))
     (groupContainersByNamePrefix caseFoldCompare
        [container ''1'' ''Box'' ''running'', container ''2'' ''api'' ''running'']) =
     [(str ''api'', [str ''api'']), (str ''Box'', [str ''Box''])] \<and>
   str ''Box'' < str ''api''"
proof -
  have "map (\<lambda>g. (key g, map name (containers g)))
     (groupContainersByNamePrefix caseFoldCompare
        [container ''1'' ''Box'' ''running'', container ''2'' ''api'' ''running'']) =
     [(str ''api'', [str ''api'']), (str ''Box'', [str ''Box''])]"
    by code_simp
  moreover have "str ''Box'' < str ''api''" by code_simp
  ultimately show ?thesis using consistent_caseFoldCompare by simp
qed

section \<open>The selected key\<close>

text \<open>
  The selection loop computes \<open>spec_key\<close>.
\<close>

lemma selected_at_first:
  assumes "\<forall>k\<in>set C. n k < 2" "2 \<le> n x"
  shows "selected_at n (C @ [x]) (length C)"
proof -
  have "\<not> 2 \<le> n (C ! j)" if "j < length C" for j
    using assms(1) that by (metis nth_mem not_le)
  then show ?thesis
    using assms(2) by (auto simp: selected_at_def nth_append preferred_def less_Suc_eq)
qed

lemma selected_at_skip:
  "selected_at n C i \<Longrightarrow> n x < 2 \<Longrightarrow> selected_at n (C @ [x]) i"
  by (auto simp: selected_at_def nth_append less_Suc_eq)

lemma selected_at_keep:
  "selected_at n C i \<Longrightarrow> \<not> preferred n x (C ! i) \<Longrightarrow> selected_at n (C @ [x]) i"
  by (auto simp: selected_at_def nth_append less_Suc_eq)

lemma selected_at_replace:
  assumes "selected_at n C i" "2 \<le> n x" "preferred n x (C ! i)"
  shows "selected_at n (C @ [x]) (length C)"
proof -
  have "\<not> preferred n (C ! j) x \<and> preferred n x (C ! j)" if "j < length C" "2 \<le> n (C ! j)" for j
  proof -
    from assms(1) that have "\<not> preferred n (C ! j) (C ! i)" by (simp add: selected_at_def)
    with assms(3) show ?thesis by (auto simp: preferred_def)
  qed
  then show ?thesis
    using assms(2) by (auto simp: selected_at_def nth_append less_Suc_eq preferred_def)
qed

lemma best_invariant_step:
  assumes "best_invariant (get_count counts) nm C b"
  shows "best_invariant (get_count counts) nm (C @ [x]) (best_step counts b x)"
proof -
  let ?n = "get_count counts"
  from assms consider
    (none) "\<forall>k\<in>set C. ?n k < 2" "b = (nm, 1, 0)"
    | (some) i where "selected_at ?n C i" "b = (C ! i, ?n (C ! i), length (C ! i))"
    unfolding best_invariant_def by blast
  then show ?thesis
  proof cases
    case none
    show ?thesis
    proof (cases "?n x < 2")
      case True
      then have "best_step counts b x = (nm, 1, 0)" by (simp add: best_step_def none(2) Let_def)
      moreover have "\<forall>k\<in>set (C @ [x]). ?n k < 2" using none(1) True by simp
      ultimately show ?thesis unfolding best_invariant_def by blast
    next
      case False
      then have "best_step counts b x = (x, ?n x, length x)"
        by (simp add: best_step_def none(2) Let_def)
      moreover have "selected_at ?n (C @ [x]) (length C)"
        using none(1) False by (simp add: selected_at_first)
      moreover have "(C @ [x]) ! length C = x" by simp
      ultimately show ?thesis unfolding best_invariant_def by metis
    qed
  next
    case some
    then have il: "i < length C" by (simp add: selected_at_def)
    then have nth: "(C @ [x]) ! i = C ! i" by (simp add: nth_append)
    show ?thesis
    proof (cases "2 \<le> ?n x \<and> preferred ?n x (C ! i)")
      case True
      then have "best_step counts b x = (x, ?n x, length x)"
        by (auto simp: best_step_def some(2) preferred_def Let_def)
      moreover have "selected_at ?n (C @ [x]) (length C)"
        using some(1) True by (simp add: selected_at_replace)
      moreover have "(C @ [x]) ! length C = x" by simp
      ultimately show ?thesis unfolding best_invariant_def by metis
    next
      case False
      then have "best_step counts b x = b"
        by (auto simp: best_step_def some(2) preferred_def Let_def)
      moreover have "selected_at ?n (C @ [x]) i"
      proof (cases "?n x < 2")
        case True
        with some(1) show ?thesis by (rule selected_at_skip)
      next
        case False
        with \<open>\<not> (2 \<le> ?n x \<and> preferred ?n x (C ! i))\<close> have "\<not> preferred ?n x (C ! i)" by simp
        with some(1) show ?thesis by (rule selected_at_keep)
      qed
      ultimately show ?thesis unfolding best_invariant_def using some(2) nth by metis
    qed
  qed
qed

lemma foldl_best_step:
  "best_invariant (get_count counts) nm C (foldl (best_step counts) (nm, 1, 0) C)"
proof (induction C rule: rev_induct)
  case Nil
  show ?case by (simp add: best_invariant_def)
next
  case (snoc x C)
  then show ?case by (simp add: best_invariant_step del: One_nat_def)
qed

lemma filter_first:
  assumes "i < length xs" "P (xs ! i)" "\<forall>j<i. \<not> P (xs ! j)"
  shows "\<exists>rest. filter P xs = xs ! i # rest"
proof -
  have "xs = take i xs @ xs ! i # drop (Suc i) xs"
    using assms(1) by (simp add: id_take_nth_drop)
  moreover have "filter P (take i xs) = []"
    using assms(1,3) by (auto simp: filter_empty_conv in_set_conv_nth)
  ultimately have "filter P xs = xs ! i # filter P (drop (Suc i) xs)"
    using assms(2) by (metis append_Nil filter.simps(2) filter_append)
  then show ?thesis by blast
qed

lemma spec_key_none: "\<forall>k\<in>set C. n k < 2 \<Longrightarrow> spec_key n C fb = fb"
proof -
  assume "\<forall>k\<in>set C. n k < 2"
  then have "filter (\<lambda>k. 2 \<le> n k) C = []" by (auto simp: filter_empty_conv)
  then show ?thesis by (simp add: spec_key_def)
qed

lemma spec_key_selected:
  assumes "selected_at n C i"
  shows "spec_key n C fb = C ! i"
proof -
  let ?E = "filter (\<lambda>k. 2 \<le> n k) C"
  let ?H = "filter (\<lambda>k. \<forall>k'\<in>set ?E. n k' \<le> n k) ?E"
  let ?L = "filter (\<lambda>k. \<forall>k'\<in>set ?H. length k' \<le> length k) ?H"
  let ?Q = "\<lambda>k. 2 \<le> n k \<and> n k = n (C ! i) \<and> length k = length (C ! i)"
  from assms have il: "i < length C" and el: "2 \<le> n (C ! i)"
    and best: "\<And>j. j < length C \<Longrightarrow> 2 \<le> n (C ! j) \<Longrightarrow> \<not> preferred n (C ! j) (C ! i)"
    and before: "\<And>j. j < i \<Longrightarrow> 2 \<le> n (C ! j) \<Longrightarrow> preferred n (C ! i) (C ! j)"
    by (auto simp: selected_at_def)
  have iE: "C ! i \<in> set ?E" using il el by simp
  have le: "n k \<le> n (C ! i) \<and> (n k = n (C ! i) \<longrightarrow> length k \<le> length (C ! i))"
    if "k \<in> set ?E" for k
  proof -
    from that obtain j where "j < length C" "C ! j = k" "2 \<le> n k"
      by (auto simp: in_set_conv_nth)
    with best [of j] show ?thesis by (auto simp: preferred_def)
  qed
  have H: "?H = filter (\<lambda>k. n k = n (C ! i)) ?E"
  proof (rule filter_cong [OF refl])
    fix k assume "k \<in> set ?E"
    show "(\<forall>k'\<in>set ?E. n k' \<le> n k) = (n k = n (C ! i))"
    proof
      assume "\<forall>k'\<in>set ?E. n k' \<le> n k"
      with iE have "n (C ! i) \<le> n k" by blast
      moreover have "n k \<le> n (C ! i)" using le \<open>k \<in> set ?E\<close> by blast
      ultimately show "n k = n (C ! i)" by simp
    next
      assume "n k = n (C ! i)"
      then show "\<forall>k'\<in>set ?E. n k' \<le> n k" using le by simp
    qed
  qed
  have iH: "C ! i \<in> set ?H" unfolding H using iE by simp
  have L: "?L = filter (\<lambda>k. length k = length (C ! i)) ?H"
  proof (rule filter_cong [OF refl])
    fix k assume k: "k \<in> set ?H"
    then have "k \<in> set ?E" "n k = n (C ! i)" unfolding H by auto
    then have kl: "length k \<le> length (C ! i)" using le by blast
    have all: "length k' \<le> length (C ! i)" if "k' \<in> set ?H" for k'
      using that le unfolding H by auto
    show "(\<forall>k'\<in>set ?H. length k' \<le> length k) = (length k = length (C ! i))"
    proof
      assume "\<forall>k'\<in>set ?H. length k' \<le> length k"
      with iH have "length (C ! i) \<le> length k" by blast
      with kl show "length k = length (C ! i)" by simp
    next
      assume "length k = length (C ! i)"
      then show "\<forall>k'\<in>set ?H. length k' \<le> length k" using all by simp
    qed
  qed
  have "?L = filter (\<lambda>k. length k = length (C ! i)) ?H" by (rule L)
  also have "\<dots> = filter (\<lambda>k. length k = length (C ! i)) (filter (\<lambda>k. n k = n (C ! i)) ?E)"
    by (simp only: H)
  also have "\<dots> = filter ?Q C"
    unfolding filter_filter by (rule filter_cong [OF refl]) blast
  finally have "?L = filter ?Q C" .
  moreover have "\<exists>rest. filter ?Q C = C ! i # rest"
  proof (rule filter_first [OF il])
    show "?Q (C ! i)" using el by simp
    show "\<forall>j<i. \<not> ?Q (C ! j)"
    proof (intro allI impI notI)
      fix j assume j: "j < i" and q: "?Q (C ! j)"
      then have "preferred n (C ! i) (C ! j)" using before by blast
      with q show False by (auto simp: preferred_def)
    qed
  qed
  ultimately obtain rest where "?L = C ! i # rest" by auto
  then show ?thesis by (simp add: spec_key_def)
qed

lemma select_key_spec:
  "select_key counts nm C = spec_key (get_count counts) C nm"
proof -
  let ?b = "foldl (best_step counts) (nm, 1, 0) C"
  have "best_invariant (get_count counts) nm C ?b" by (rule foldl_best_step)
  then consider "\<forall>k\<in>set C. get_count counts k < 2" "fst ?b = nm"
    | i where "selected_at (get_count counts) C i" "fst ?b = C ! i"
    unfolding best_invariant_def by (metis fst_conv)
  then have "fst ?b = spec_key (get_count counts) C nm"
    by cases (simp_all only: spec_key_none spec_key_selected)
  then show ?thesis by (simp only: select_key_def)
qed

lemma best_key_spec:
  assumes "distinct (map id' cs)" "c \<in> set cs"
  shows "best_key (build_index cs) c =
         spec_key (occurrence_count cs) (record_candidates c) (trim (name_or_id c))"
proof -
  have "get_count (candidateCounts (build_index cs)) = occurrence_count cs"
    by (rule ext) (rule candidateCounts_build_index)
  then show ?thesis
    using assms by (simp add: best_key_build_index select_key_spec)
qed

section \<open>Trimmed names and the fallback key\<close>

lemma dropWhile_rev_dropWhile:
  "dropWhile P (rev (dropWhile P (rev (dropWhile P s)))) = rev (dropWhile P (rev (dropWhile P s)))"
proof (cases "dropWhile P (rev (dropWhile P s)) = []")
  case True
  show ?thesis by (simp only: True rev.simps dropWhile.simps)
next
  case False
  let ?a = "dropWhile P s"
  let ?b = "rev (dropWhile P (rev ?a))"
  have ane: "?a \<noteq> []"
  proof
    assume "?a = []"
    then have "dropWhile P (rev ?a) = []" by (simp only: rev.simps dropWhile.simps)
    with False show False by simp
  qed
  then have ha: "\<not> P (hd ?a)" by (rule hd_dropWhile)
  have "?a = ?b @ rev (takeWhile P (rev ?a))"
    by (metis rev_append rev_rev_ident takeWhile_dropWhile_id)
  moreover have "?b \<noteq> []" using False by simp
  ultimately have "hd ?b = hd ?a" by (metis hd_append2)
  with ha have "\<not> P (hd ?b)" by simp
  with \<open>?b \<noteq> []\<close> show ?thesis by (cases ?b) auto
qed

lemma trim_trim: "trim (trim s) = trim s"
  by (simp add: trim_def dropWhile_rev_dropWhile)

lemma containerGroupCandidates_trim:
  "containerGroupCandidates (trim s) = containerGroupCandidates s"
  by (simp add: containerGroupCandidates_def trim_trim)

lemma record_candidates_name_or_id:
  "record_candidates c = containerGroupCandidates (name_or_id c)"
  by (simp add: record_candidates_def containerGroupCandidates_trim)

lemma containerGroupCandidates_empty:
  "trim s = [] \<Longrightarrow> containerGroupCandidates s = []"
  by (simp add: containerGroupCandidates_def)

lemma set_containerGroupCandidates:
  "trim s \<noteq> [] \<Longrightarrow>
   set (containerGroupCandidates s) =
     insert (trim s) ((if replace_index_suffix (trim s) \<noteq> [] then {replace_index_suffix (trim s)} else {})
       \<union> set (separator_prefixes (trim s)))"
  by (auto simp: containerGroupCandidates_new_Set new_Set_def set_foldl_set_add set_set_add)

lemma full_name_candidate:
  "trim s \<noteq> [] \<Longrightarrow> trim s \<in> set (containerGroupCandidates s)"
  by (simp add: set_containerGroupCandidates)

lemma candidates_not_empty: "[] \<notin> set (containerGroupCandidates s)"
proof (cases "trim s = []")
  case True
  then show ?thesis by (simp add: containerGroupCandidates_empty)
next
  case False
  then show ?thesis
    by (auto simp: set_containerGroupCandidates separator_prefixes_def)
qed

lemma spec_key_cases:
  "((\<forall>k\<in>set C. n k < 2) \<and> spec_key n C fb = fb) \<or>
   (spec_key n C fb \<in> set C \<and> 2 \<le> n (spec_key n C fb))"
proof -
  let ?counts = "\<lambda>k. Some (n k)"
  have n: "get_count ?counts = n" by (rule ext) (simp add: get_count_def)
  have "best_invariant n fb C (foldl (best_step ?counts) (fb, 1, 0) C)"
    using foldl_best_step [where counts = ?counts and nm = fb and C = C] by (simp only: n)
  then consider "\<forall>k\<in>set C. n k < 2" | i where "selected_at n C i"
    unfolding best_invariant_def by blast
  then show ?thesis
  proof cases
    case 1
    then show ?thesis by (simp add: spec_key_none)
  next
    case 2
    then have "spec_key n C fb = C ! i" by (rule spec_key_selected)
    moreover from 2 have "i < length C" "2 \<le> n (C ! i)" by (simp_all add: selected_at_def)
    ultimately show ?thesis by simp
  qed
qed

lemma best_key_in_candidates:
  assumes "distinct (map id' cs)" "d \<in> set cs"
    and "best_key (build_index cs) d \<noteq> []"
  shows "best_key (build_index cs) d \<in> set (record_candidates d)"
proof -
  let ?k = "spec_key (occurrence_count cs) (record_candidates d) (trim (name_or_id d))"
  have k: "best_key (build_index cs) d = ?k" using assms(1,2) by (rule best_key_spec)
  from spec_key_cases [of "record_candidates d" "occurrence_count cs" "trim (name_or_id d)"]
  show ?thesis
  proof
    assume "(\<forall>k\<in>set (record_candidates d). occurrence_count cs k < 2) \<and> ?k = trim (name_or_id d)"
    then have "?k = trim (name_or_id d)" by simp
    moreover from this assms(3) k have "trim (name_or_id d) \<noteq> []" by simp
    ultimately show ?thesis
      unfolding k record_candidates_name_or_id by (simp add: full_name_candidate)
  next
    assume "?k \<in> set (record_candidates d) \<and> 2 \<le> occurrence_count cs ?k"
    then show ?thesis by (simp add: k)
  qed
qed

lemma best_key_empty_iff:
  assumes "distinct (map id' cs)" "d \<in> set cs"
  shows "(best_key (build_index cs) d = []) = (trim (name_or_id d) = [])"
proof
  assume e: "best_key (build_index cs) d = []"
  let ?k = "spec_key (occurrence_count cs) (record_candidates d) (trim (name_or_id d))"
  have k: "best_key (build_index cs) d = ?k" using assms by (rule best_key_spec)
  from spec_key_cases [of "record_candidates d" "occurrence_count cs" "trim (name_or_id d)"]
  show "trim (name_or_id d) = []"
  proof
    assume "(\<forall>k\<in>set (record_candidates d). occurrence_count cs k < 2) \<and> ?k = trim (name_or_id d)"
    with e k show ?thesis by simp
  next
    assume "?k \<in> set (record_candidates d) \<and> 2 \<le> occurrence_count cs ?k"
    with e k have "[] \<in> set (record_candidates d)" by simp
    then show ?thesis by (simp add: record_candidates_def candidates_not_empty)
  qed
next
  assume "trim (name_or_id d) = []"
  then have "record_candidates d = []"
    by (simp add: record_candidates_name_or_id containerGroupCandidates_empty)
  then show "best_key (build_index cs) d = []"
    using assms \<open>trim (name_or_id d) = []\<close> by (simp add: best_key_spec spec_key_none)
qed

lemma filter_single:
  assumes "distinct xs" "c \<in> set xs" "\<And>d. d \<in> set xs \<Longrightarrow> P d = (d = c)"
  shows "filter P xs = [c]"
proof -
  have "filter P xs = filter (\<lambda>d. d = c) xs"
    using assms(3) by (auto intro: filter_cong)
  also have "\<dots> = [c]"
    using assms(1,2) by (induction xs) (auto simp: filter_empty_conv)
  finally show ?thesis .
qed

lemma occurrence_count_two:
  assumes "distinct cs" "c \<in> set cs" "d \<in> set cs" "c \<noteq> d"
    and "k \<in> set (record_candidates c)" "k \<in> set (record_candidates d)"
  shows "2 \<le> occurrence_count cs k"
proof -
  let ?F = "filter (\<lambda>e. k \<in> set (record_candidates e)) cs"
  have "distinct ?F" using assms(1) by simp
  moreover have "{c, d} \<subseteq> set ?F" using assms by simp
  ultimately have "card {c, d} \<le> length ?F"
    by (metis card_mono distinct_card finite_set)
  then show ?thesis using assms(4) by (simp add: occurrence_count_def)
qed

lemma singleton_group:
  assumes ids: "distinct (map id' cs)" and c: "c \<in> set cs"
    and none: "\<forall>k\<in>set (record_candidates c). occurrence_count cs k < 2"
    and ne: "trim (name_or_id c) \<noteq> []"
  shows "filter (\<lambda>d. best_key (build_index cs) d = trim (name_or_id c)) cs = [c]"
proof (rule filter_single)
  show dcs: "distinct cs" using ids by (simp add: distinct_map)
  show "c \<in> set cs" by (rule c)
  let ?t = "trim (name_or_id c)"
  have tc: "?t \<in> set (record_candidates c)"
    unfolding record_candidates_name_or_id using ne by (rule full_name_candidate)
  have kc: "best_key (build_index cs) c = ?t"
    using ids c none by (simp add: best_key_spec spec_key_none)
  show "(best_key (build_index cs) d = ?t) = (d = c)" if d: "d \<in> set cs" for d
  proof
    assume e: "best_key (build_index cs) d = ?t"
    then have "?t \<in> set (record_candidates d)"
      using best_key_in_candidates [OF ids d] ne by simp
    then show "d = c"
      using occurrence_count_two [OF dcs c d _ tc] none tc by fastforce
  next
    assume "d = c"
    then show "best_key (build_index cs) d = ?t" using kc by simp
  qed
qed

lemma trim_Nil: "trim [] = []"
  by (simp add: trim_def)

lemma array_sort_single: "array_sort cmp [x] = [x]"
  by (simp add: array_sort_def)

lemma key_of_member:
  assumes "g \<in> set (groupContainersByNamePrefix lc cs)" "c \<in> set (containers g)"
  shows "key g = best_key (build_index cs) c"
  using members_of_group(1) [OF assms(1)] assms(2) by simp

lemma containers_of_group:
  assumes "g \<in> set (groupContainersByNamePrefix lc cs)"
  shows "containers g =
         array_sort (member_compare lc) (filter (\<lambda>d. best_key (build_index cs) d = key g) cs)"
proof -
  from assms obtain k where
    g: "g = make_group lc (k, filter (\<lambda>c. best_key (build_index cs) c = k) cs)"
    by (rule group_in_output)
  show ?thesis by (simp add: g containers_make_group key_make_group)
qed

lemma candidatesById_build_index:
  "distinct (map id' cs) \<Longrightarrow> c \<in> set cs \<Longrightarrow>
   candidatesById (build_index cs) (id' c) = Some (record_candidates c)"
  by (simp add: build_index_def candidatesById_foldl_index_step)

lemma scenario_A_groups:
  "groupContainersByNamePrefix codeUnitCompare scenario_A =
     [\<lparr>key = str ''web'',
       containers = [container ''1'' ''web-1'' ''running'', container ''2'' ''web-2'' ''running''],
       runningCount = 2, stoppedCount = 0\<rparr>,
      \<lparr>key = str ''api-1'', containers = [container ''3'' ''api-1'' ''running''],
       runningCount = 1, stoppedCount = 0\<rparr>]"
  by code_simp

text \<open>
  Claim C1, as amended.  In a snapshot of records with distinct ids, the key of the group
  that holds a record is selected from the record's own candidates and the frequency
  index (the number of records whose candidates contain a string): candidates counted at
  least twice are eligible, among them the highest count wins, then the longer string,
  then the earlier position in the generation order; with no eligible candidate the key
  is the record's trimmed name-or-id, and the group is the record alone when that key is
  not empty.
\<close>

theorem key_selection:
  assumes "distinct (map id' cs)" and "c \<in> set cs"
    and "g \<in> set (groupContainersByNamePrefix lc cs)" and "c \<in> set (containers g)"
  shows "key g = spec_key (occurrence_count cs) (record_candidates c) (trim (name_or_id c)) \<and>
         ((\<forall>k\<in>set (record_candidates c). occurrence_count cs k < 2) \<longrightarrow>
            key g = trim (name_or_id c) \<and>
            (trim (name_or_id c) \<noteq> [] \<longrightarrow> containers g = [c]))"
proof -
  have k: "key g = best_key (build_index cs) c" using assms(3,4) by (rule key_of_member)
  then have s: "key g = spec_key (occurrence_count cs) (record_candidates c) (trim (name_or_id c))"
    using assms(1,2) by (simp add: best_key_spec)
  have "key g = trim (name_or_id c) \<and> (trim (name_or_id c) \<noteq> [] \<longrightarrow> containers g = [c])"
    if none: "\<forall>k\<in>set (record_candidates c). occurrence_count cs k < 2"
  proof
    show t: "key g = trim (name_or_id c)" using s none by (simp add: spec_key_none)
    show "trim (name_or_id c) \<noteq> [] \<longrightarrow> containers g = [c]"
    proof
      assume "trim (name_or_id c) \<noteq> []"
      with assms(1,2) none
      have "filter (\<lambda>d. best_key (build_index cs) d = trim (name_or_id c)) cs = [c]"
        by (rule singleton_group)
      then show "containers g = [c]"
        using containers_of_group [OF assms(3)] by (simp add: t array_sort_single)
    qed
  qed
  with s show ?thesis by blast
qed

theorem key_selection_witness:
  "distinct (map id' scenario_A) \<and>
   container ''3'' ''api-1'' ''running'' \<in> set scenario_A \<and>
   \<lparr>key = str ''api-1'', containers = [container ''3'' ''api-1'' ''running''],
     runningCount = 1, stoppedCount = 0\<rparr> \<in> set (groupContainersByNamePrefix codeUnitCompare scenario_A) \<and>
   list_all (\<lambda>k. occurrence_count scenario_A k < 2)
     (record_candidates (container ''3'' ''api-1'' ''running'')) \<and>
   trim (name_or_id (container ''3'' ''api-1'' ''running'')) \<noteq> [] \<and>
   spec_key (occurrence_count scenario_A) (record_candidates (container ''3'' ''api-1'' ''running''))
     (trim (name_or_id (container ''3'' ''api-1'' ''running''))) = str ''api-1'' \<and>
   spec_key (occurrence_count scenario_A) (record_candidates (container ''1'' ''web-1'' ''running''))
     (trim (name_or_id (container ''1'' ''web-1'' ''running''))) = str ''web''"
proof -
  let ?c = "container ''3'' ''api-1'' ''running''"
  let ?g = "\<lparr>key = str ''api-1'', containers = [?c], runningCount = 1, stoppedCount = 0\<rparr>"
  let ?w = "container ''1'' ''web-1'' ''running''"
  let ?h = "\<lparr>key = str ''web'', containers = [?w, container ''2'' ''web-2'' ''running''],
             runningCount = 2, stoppedCount = 0\<rparr>"
  have d: "distinct (map id' scenario_A)" by code_simp
  have c: "?c \<in> set scenario_A" by (simp add: scenario_A_def)
  have w: "?w \<in> set scenario_A" by (simp add: scenario_A_def)
  have g: "?g \<in> set (groupContainersByNamePrefix codeUnitCompare scenario_A)"
    by (simp add: scenario_A_groups)
  have h: "?h \<in> set (groupContainersByNamePrefix codeUnitCompare scenario_A)"
    by (simp add: scenario_A_groups)
  have n: "list_all (\<lambda>k. occurrence_count scenario_A k < 2) (record_candidates ?c)"
    by code_simp
  have t: "trim (name_or_id ?c) \<noteq> []" by code_simp
  have "key ?g = spec_key (occurrence_count scenario_A) (record_candidates ?c) (trim (name_or_id ?c))"
    using key_selection [OF d c g] by simp
  moreover have "key ?h = spec_key (occurrence_count scenario_A) (record_candidates ?w) (trim (name_or_id ?w))"
    using key_selection [OF d w h] by simp
  ultimately show ?thesis using d c g n t by simp
qed

text \<open>
  The claim as stated fails in its last clause.  Two records whose names are a single
  space have no candidates; both get the empty string as key and share one group.
\<close>

theorem key_selection_counterexample:
  "record_candidates (container ''a'' '' '' ''running'') = [] \<and>
   record_candidates (container ''b'' '' '' ''running'') = [] \<and>
   map (\<lambda>g. (key g, map id' (containers g)))
     (groupContainersByNamePrefix codeUnitCompare
        [container ''a'' '' '' ''running'', container ''b'' '' '' ''running'']) =
     [([], [str ''a'', str ''b''])]"
  by code_simp

text \<open>
  Claim C6, as amended.  For every record whose name is the empty string (in a snapshot
  of records with distinct ids) the id takes the place of the name: the candidates kept
  for the record are generated from the id, the key is selected among them, and with no
  eligible candidate the key is the trimmed id.  A name that is not empty but trims to
  the empty string is not replaced by the id: such a record has no candidates and its
  key is the empty string.  A single record with empty name and id \<open>c1\<close> gives the
  singleton group keyed \<open>c1\<close>.
\<close>

theorem id_replaces_empty_name:
  "(name c = [] \<and> distinct (map id' cs) \<and> c \<in> set cs \<and>
    g \<in> set (groupContainersByNamePrefix lc cs) \<and> c \<in> set (containers g) \<longrightarrow>
      candidatesById (build_index cs) (id' c) = Some (containerGroupCandidates (id' c)) \<and>
      key g = spec_key (occurrence_count cs) (containerGroupCandidates (id' c)) (trim (id' c)) \<and>
      ((\<forall>k\<in>set (containerGroupCandidates (id' c)). occurrence_count cs k < 2) \<longrightarrow>
         key g = trim (id' c))) \<and>
   (name c \<noteq> [] \<and> trim (name c) = [] \<and> distinct (map id' cs) \<and> c \<in> set cs \<and>
    g \<in> set (groupContainersByNamePrefix lc cs) \<and> c \<in> set (containers g) \<longrightarrow>
      record_candidates c = [] \<and>
      candidatesById (build_index cs) (id' c) = Some [] \<and>
      key g = []) \<and>
   groupContainersByNamePrefix lc
     [\<lparr>id' = str ''c1'', name = [], image' = m, state = s, status = t, ports = p\<rparr>] =
     [\<lparr>key = str ''c1'',
       containers = [\<lparr>id' = str ''c1'', name = [], image' = m, state = s, status = t, ports = p\<rparr>],
       runningCount = (if s = str ''running'' then 1 else 0),
       stoppedCount = (if s = str ''running'' then 0 else 1)\<rparr>]"
proof (intro conjI)
  show "name c = [] \<and> distinct (map id' cs) \<and> c \<in> set cs \<and>
    g \<in> set (groupContainersByNamePrefix lc cs) \<and> c \<in> set (containers g) \<longrightarrow>
      candidatesById (build_index cs) (id' c) = Some (containerGroupCandidates (id' c)) \<and>
      key g = spec_key (occurrence_count cs) (containerGroupCandidates (id' c)) (trim (id' c)) \<and>
      ((\<forall>k\<in>set (containerGroupCandidates (id' c)). occurrence_count cs k < 2) \<longrightarrow>
         key g = trim (id' c))"
  proof
    assume a: "name c = [] \<and> distinct (map id' cs) \<and> c \<in> set cs \<and>
      g \<in> set (groupContainersByNamePrefix lc cs) \<and> c \<in> set (containers g)"
    then have n: "name_or_id c = id' c" by (simp add: name_or_id_def)
    then have r: "record_candidates c = containerGroupCandidates (id' c)"
      by (simp add: record_candidates_name_or_id)
    have "key g = best_key (build_index cs) c" using a key_of_member by blast
    then have k: "key g = spec_key (occurrence_count cs) (containerGroupCandidates (id' c)) (trim (id' c))"
      using a by (simp add: best_key_spec r n)
    have "candidatesById (build_index cs) (id' c) = Some (containerGroupCandidates (id' c))"
      using a by (simp add: candidatesById_build_index r)
    moreover have "key g = trim (id' c)"
      if "\<forall>k\<in>set (containerGroupCandidates (id' c)). occurrence_count cs k < 2"
      using that k by (simp add: spec_key_none)
    ultimately show "candidatesById (build_index cs) (id' c) = Some (containerGroupCandidates (id' c)) \<and>
      key g = spec_key (occurrence_count cs) (containerGroupCandidates (id' c)) (trim (id' c)) \<and>
      ((\<forall>k\<in>set (containerGroupCandidates (id' c)). occurrence_count cs k < 2) \<longrightarrow>
         key g = trim (id' c))"
      using k by blast
  qed
next
  show "name c \<noteq> [] \<and> trim (name c) = [] \<and> distinct (map id' cs) \<and> c \<in> set cs \<and>
    g \<in> set (groupContainersByNamePrefix lc cs) \<and> c \<in> set (containers g) \<longrightarrow>
      record_candidates c = [] \<and>
      candidatesById (build_index cs) (id' c) = Some [] \<and>
      key g = []"
  proof
    assume a: "name c \<noteq> [] \<and> trim (name c) = [] \<and> distinct (map id' cs) \<and> c \<in> set cs \<and>
      g \<in> set (groupContainersByNamePrefix lc cs) \<and> c \<in> set (containers g)"
    then have n: "name_or_id c = name c" by (simp add: name_or_id_def)
    with a have e: "trim (name_or_id c) = []" by simp
    then have r: "record_candidates c = []"
      by (simp add: record_candidates_name_or_id containerGroupCandidates_empty)
    have "key g = best_key (build_index cs) c" using a key_of_member by blast
    then have k: "key g = []" using a e by (simp add: best_key_empty_iff)
    have "candidatesById (build_index cs) (id' c) = Some (record_candidates c)"
      using a by (simp add: candidatesById_build_index)
    with r k show "record_candidates c = [] \<and>
      candidatesById (build_index cs) (id' c) = Some [] \<and> key g = []"
      by simp
  qed
next
  have n: "trim (str ''c1'') = str ''c1''" by code_simp
  have c: "containerGroupCandidates (str ''c1'') = [str ''c1'']" by code_simp
  have ne: "str ''c1'' \<noteq> []" by (simp add: str_def)
  show "groupContainersByNamePrefix lc
     [\<lparr>id' = str ''c1'', name = [], image' = m, state = s, status = t, ports = p\<rparr>] =
     [\<lparr>key = str ''c1'',
       containers = [\<lparr>id' = str ''c1'', name = [], image' = m, state = s, status = t, ports = p\<rparr>],
       runningCount = (if s = str ''running'' then 1 else 0),
       stoppedCount = (if s = str ''running'' then 0 else 1)\<rparr>]"
    by (simp add: groupContainersByNamePrefix_def build_index_def index_step_def Let_def
        name_or_id_def ne n c new_Set_def set_add_def count_candidate_def
        get_count_def build_groups_def best_key_def select_key_def best_step_def
        make_group_def is_running_def array_sort_def)
qed

theorem id_replaces_empty_name_witness:
  "name (container ''c1'' '''' ''running'') = [] \<and>
   distinct (map id' [container ''c1'' '''' ''running'', container ''2'' ''web'' ''exited'']) \<and>
   \<lparr>key = str ''c1'', containers = [container ''c1'' '''' ''running''],
     runningCount = 1, stoppedCount = 0\<rparr> \<in>
     set (groupContainersByNamePrefix codeUnitCompare
            [container ''c1'' '''' ''running'', container ''2'' ''web'' ''exited'']) \<and>
   list_all (\<lambda>k. occurrence_count [container ''c1'' '''' ''running'', container ''2'' ''web'' ''exited''] k < 2)
     (containerGroupCandidates (id' (container ''c1'' '''' ''running''))) \<and>
   candidatesById (build_index [container ''c1'' '''' ''running'', container ''2'' ''web'' ''exited''])
     (id' (container ''c1'' '''' ''running'')) = Some [str ''c1''] \<and>
   trim (id' (container ''c1'' '''' ''running'')) = str ''c1'' \<and>
   name (container ''c3'' '' '' ''running'') \<noteq> [] \<and>
   trim (name (container ''c3'' '' '' ''running'')) = [] \<and>
   distinct (map id' [container ''c3'' '' '' ''running'', container ''2'' ''web'' ''exited'']) \<and>
   \<lparr>key = [], containers = [container ''c3'' '' '' ''running''],
     runningCount = 1, stoppedCount = 0\<rparr> \<in>
     set (groupContainersByNamePrefix codeUnitCompare
            [container ''c3'' '' '' ''running'', container ''2'' ''web'' ''exited'']) \<and>
   record_candidates (container ''c3'' '' '' ''running'') = [] \<and>
   candidatesById (build_index [container ''c3'' '' '' ''running'', container ''2'' ''web'' ''exited''])
     (id' (container ''c3'' '' '' ''running'')) = Some []"
proof -
  let ?c = "container ''c1'' '''' ''running''"
  let ?cs = "[?c, container ''2'' ''web'' ''exited'']"
  let ?g = "\<lparr>key = str ''c1'', containers = [?c], runningCount = 1, stoppedCount = 0\<rparr>"
  have n: "name ?c = []" by (simp add: container_def str_def)
  have d: "distinct (map id' ?cs)" by code_simp
  have g: "?g \<in> set (groupContainersByNamePrefix codeUnitCompare ?cs)" by code_simp
  have e: "list_all (\<lambda>k. occurrence_count ?cs k < 2) (containerGroupCandidates (id' ?c))"
    by code_simp
  have c: "containerGroupCandidates (id' ?c) = [str ''c1'']" by code_simp
  have t: "trim (id' ?c) = str ''c1''" by code_simp
  have prem: "name ?c = [] \<and> distinct (map id' ?cs) \<and> ?c \<in> set ?cs \<and>
      ?g \<in> set (groupContainersByNamePrefix codeUnitCompare ?cs) \<and> ?c \<in> set (containers ?g)"
    using n d g by simp
  have "candidatesById (build_index ?cs) (id' ?c) = Some (containerGroupCandidates (id' ?c))"
    using id_replaces_empty_name [of ?c ?cs ?g codeUnitCompare] prem by blast
  then have by_id: "candidatesById (build_index ?cs) (id' ?c) = Some [str ''c1'']"
    by (simp only: c)
  let ?b = "container ''c3'' '' '' ''running''"
  let ?bs = "[?b, container ''2'' ''web'' ''exited'']"
  let ?h = "\<lparr>key = [], containers = [?b], runningCount = 1, stoppedCount = 0\<rparr>"
  have bn: "name ?b \<noteq> []" by (simp add: container_def str_def)
  have bt: "trim (name ?b) = []" by code_simp
  have bd: "distinct (map id' ?bs)" by code_simp
  have bg: "?h \<in> set (groupContainersByNamePrefix codeUnitCompare ?bs)" by code_simp
  have bprem: "name ?b \<noteq> [] \<and> trim (name ?b) = [] \<and> distinct (map id' ?bs) \<and> ?b \<in> set ?bs \<and>
      ?h \<in> set (groupContainersByNamePrefix codeUnitCompare ?bs) \<and> ?b \<in> set (containers ?h)"
    using bn bt bd bg by simp
  have blank: "record_candidates ?b = [] \<and> candidatesById (build_index ?bs) (id' ?b) = Some []"
    using id_replaces_empty_name [of ?b ?bs ?h codeUnitCompare] bprem by blast
  from n d g e by_id t bn bt bd bg blank show ?thesis by (intro conjI) simp_all
qed

text \<open>
  The claim as stated fails.  A name of one space trims to the empty string, yet the id
  \<open>c1\<close> is not used: the record has no candidates and the empty string as key.  And for
  an empty name the key is the trimmed id, \<open>c2\<close> for the id \<open>c2\<close> with a space on either
  side.
\<close>

theorem id_replaces_empty_name_counterexample:
  "trim (name (container ''c1'' '' '' ''running'')) = [] \<and>
   record_candidates (container ''c1'' '' '' ''running'') = [] \<and>
   containerGroupCandidates (id' (container ''c1'' '' '' ''running'')) = [str ''c1''] \<and>
   name (container '' c2 '' '''' ''running'') = [] \<and>
   map (\<lambda>g. (key g, map id' (containers g)))
     (groupContainersByNamePrefix codeUnitCompare
        [container ''c1'' '' '' ''running'', container '' c2 '' '''' ''running'']) =
     [([], [str ''c1'']), (str ''c2'', [str '' c2 ''])]"
  by code_simp

text \<open>
  Claim C7, as amended.  For every snapshot of records with distinct ids the function
  returns the groups of the whole snapshot, every record in one of them, and a record
  whose name and id are both empty is a member of the group keyed by the empty string;
  the members of that group are the records whose name-or-id trims to the empty string,
  so the record is alone in it when the snapshot has no other such record.
\<close>

theorem empty_record_grouped:
  assumes "distinct (map id' cs)" and "c \<in> set cs" and "name c = []" and "id' c = []"
  shows "mset (concat (map containers (groupContainersByNamePrefix lc cs))) = mset cs \<and>
         (\<exists>g. g \<in> set (groupContainersByNamePrefix lc cs) \<and> key g = [] \<and>
              c \<in> set (containers g) \<and>
              set (containers g) = {d \<in> set cs. trim (name_or_id d) = []} \<and>
              ((\<forall>d\<in>set cs. trim (name_or_id d) = [] \<longrightarrow> d = c) \<longrightarrow> containers g = [c]))"
proof -
  let ?f = "best_key (build_index cs)"
  let ?g = "make_group lc ([], filter (\<lambda>d. ?f d = []) cs)"
  have e: "trim (name_or_id c) = []" using assms(3,4) by (simp add: name_or_id_def trim_Nil)
  then have fc: "?f c = []" using assms(1,2) by (simp add: best_key_empty_iff)
  then have "[] \<in> ?f ` set cs" using assms(2) by (metis imageI)
  then have g: "?g \<in> set (groupContainersByNamePrefix lc cs)"
    unfolding set_groupContainersByNamePrefix by (rule imageI)
  have k: "key ?g = []" by (simp add: key_make_group)
  have m: "set (containers ?g) = {d \<in> set cs. trim (name_or_id d) = []}"
    using assms(1) by (auto simp: containers_make_group set_array_sort best_key_empty_iff)
  have "containers ?g = [c]" if "\<forall>d\<in>set cs. trim (name_or_id d) = [] \<longrightarrow> d = c"
  proof -
    have "filter (\<lambda>d. ?f d = []) cs = [c]"
    proof (rule filter_single)
      show "distinct cs" using assms(1) by (simp add: distinct_map)
      show "c \<in> set cs" by (rule assms(2))
      show "(?f d = []) = (d = c)" if "d \<in> set cs" for d
        using that \<open>\<forall>d\<in>set cs. trim (name_or_id d) = [] \<longrightarrow> d = c\<close> assms(1) e
        by (auto simp: best_key_empty_iff)
    qed
    then show ?thesis by (simp add: containers_make_group array_sort_single)
  qed
  moreover have "c \<in> set (containers ?g)" using m e assms(2) by simp
  ultimately show ?thesis using g k m mset_members by blast
qed

theorem empty_record_grouped_witness:
  "distinct (map id' [container '''' '''' ''running'', container ''2'' ''web'' ''exited'']) \<and>
   name (container '''' '''' ''running'') = [] \<and> id' (container '''' '''' ''running'') = [] \<and>
   groupContainersByNamePrefix codeUnitCompare
     [container '''' '''' ''running'', container ''2'' ''web'' ''exited''] =
     [\<lparr>key = [], containers = [container '''' '''' ''running''], runningCount = 1, stoppedCount = 0\<rparr>,
      \<lparr>key = str ''web'', containers = [container ''2'' ''web'' ''exited''],
        runningCount = 0, stoppedCount = 1\<rparr>] \<and>
   (\<exists>g. g \<in> set (groupContainersByNamePrefix codeUnitCompare
                    [container '''' '''' ''running'', container ''2'' ''web'' ''exited'']) \<and>
        key g = [] \<and> container '''' '''' ''running'' \<in> set (containers g))"
proof -
  let ?c = "container '''' '''' ''running''"
  let ?cs = "[?c, container ''2'' ''web'' ''exited'']"
  have d: "distinct (map id' ?cs)" by code_simp
  have c: "?c \<in> set ?cs" by simp
  have n: "name ?c = []" by (simp add: container_def str_def)
  have i: "id' ?c = []" by (simp add: container_def str_def)
  have r: "groupContainersByNamePrefix codeUnitCompare ?cs =
     [\<lparr>key = [], containers = [?c], runningCount = 1, stoppedCount = 0\<rparr>,
      \<lparr>key = str ''web'', containers = [container ''2'' ''web'' ''exited''],
        runningCount = 0, stoppedCount = 1\<rparr>]"
    by code_simp
  have "\<exists>g. g \<in> set (groupContainersByNamePrefix codeUnitCompare ?cs) \<and> key g = [] \<and>
            ?c \<in> set (containers g)"
    using empty_record_grouped [OF d c n i, of codeUnitCompare] by blast
  with d n i r show ?thesis by blast
qed

text \<open>
  The claim as stated fails.  The record with empty name and empty id shares its group
  with a record of another id whose name is a single space.
\<close>

theorem empty_record_grouped_counterexample:
  "name (container '''' '''' ''running'') = [] \<and> id' (container '''' '''' ''running'') = [] \<and>
   distinct (map id' [container '''' '''' ''running'', container ''c2'' '' '' ''exited'']) \<and>
   groupContainersByNamePrefix codeUnitCompare
     [container '''' '''' ''running'', container ''c2'' '' '' ''exited''] =
     [\<lparr>key = [],
       containers = [container '''' '''' ''running'', container ''c2'' '' '' ''exited''],
       runningCount = 1, stoppedCount = 1\<rparr>]"
  by code_simp

text \<open>
  Why the ids must be distinct: \<open>candidatesById\<close> is keyed by id, so of two records with
  the same id the second loop reads for both the candidates stored last.  Here \<open>a-1\<close>
  shares its id with \<open>b-1\<close> and joins the group of \<open>b\<close>.
\<close>

lemma duplicate_ids_share_candidates:
  "map (\<lambda>g. (key g, map name (containers g)))
     (groupContainersByNamePrefix codeUnitCompare
        [container ''x'' ''a-1'' ''running'', container ''x'' ''b-1'' ''running'',
         container ''y'' ''b-2'' ''running'']) =
     [(str ''b'', [str ''a-1'', str ''b-1'', str ''b-2''])]"
  by code_simp

section \<open>The function on the store\<close>

text \<open>
  The loop on the store returns, and the function on the store computes the function
  on values, allocates the member arrays and writes to nothing else.
\<close>

lemma groups_push_new:
  "k \<notin> fst ` set G \<Longrightarrow> groups_push G k r = G @ [(k, [r])]"
  by (induction G) auto

lemma groups_push_existing:
  "distinct (map snd gs) \<Longrightarrow> \<forall>a'\<in>snd ` set gs. a' < length A \<Longrightarrow> map_of gs k = Some a \<Longrightarrow>
   map (\<lambda>(k', a'). (k', A[a := A ! a @ [r]] ! a')) gs =
   groups_push (map (\<lambda>(k', a'). (k', A ! a')) gs) k r"
proof (induction gs)
  case Nil
  then show ?case by simp
next
  case (Cons e gs)
  obtain k1 a1 where e: "e = (k1, a1)" by (cases e)
  show ?case
  proof (cases "k1 = k")
    case True
    with Cons.prems e have a: "a = a1" by simp
    have "map (\<lambda>(k', a'). (k', A[a1 := A ! a1 @ [r]] ! a')) gs = map (\<lambda>(k', a'). (k', A ! a')) gs"
      using Cons.prems(1) e by (auto intro!: map_cong simp: image_iff)
    then show ?thesis using Cons.prems(2) e True a by simp
  next
    case False
    with Cons.prems e have m: "map_of gs k = Some a" by simp
    then have "a \<in> snd ` set gs" by (metis map_of_SomeD image_eqI snd_conv)
    with Cons.prems(1) e have "a1 \<noteq> a" by auto
    moreover have "map (\<lambda>(k', a'). (k', A[a := A ! a @ [r]] ! a')) gs =
                   groups_push (map (\<lambda>(k', a'). (k', A ! a')) gs) k r"
      using Cons.prems m by (intro Cons.IH) auto
    ultimately show ?thesis using e False by simp
  qed
qed

lemma loop_invariant_refs:
  assumes "loop_invariant h0 (gs, h)"
  shows "distinct (map snd gs)" and "\<forall>a'\<in>snd ` set gs. a' < length (arrays h)"
    and "\<forall>a'\<in>snd ` set gs. length (arrays h0) \<le> a'"
proof -
  from assms have m: "map snd gs = [length (arrays h0)..<length (arrays h)]"
    by (simp add: loop_invariant_def)
  then show "distinct (map snd gs)" by simp
  have "snd ` set gs = set (map snd gs)" by simp
  also have "\<dots> = {length (arrays h0)..<length (arrays h)}" by (simp only: m set_upt)
  finally have s: "snd ` set gs = {length (arrays h0)..<length (arrays h)}" .
  show "\<forall>a'\<in>snd ` set gs. a' < length (arrays h)" unfolding s by simp
  show "\<forall>a'\<in>snd ` set gs. length (arrays h0) \<le> a'" unfolding s by simp
qed

lemma loop_invariant_input:
  assumes "loop_invariant h0 (gs, h)" "a < length (arrays h0)"
  shows "arrays h ! a = arrays h0 ! a"
proof -
  from assms(1) have "take (length (arrays h0)) (arrays h) = arrays h0"
    by (simp add: loop_invariant_def)
  then show ?thesis using assms(2) by (metis nth_take)
qed

lemma group_step_invariant:
  assumes "loop_invariant h0 (gs, h)"
  shows "loop_invariant h0 (group_step st (gs, h) r)"
proof (cases "map_of gs (best_key st (deref h r))")
  case None
  then have "group_step st (gs, h) r =
    (gs @ [(best_key st (deref h r), length (arrays h))], h\<lparr>arrays := arrays h @ [[r]]\<rparr>)"
    by (simp add: group_step_def new_array_def)
  then show ?thesis using assms by (simp add: loop_invariant_def)
next
  case (Some a)
  then have s: "group_step st (gs, h) r = (gs, h\<lparr>arrays := (arrays h)[a := arrays h ! a @ [r]]\<rparr>)"
    by (simp add: group_step_def array_push_def)
  from Some have "a \<in> snd ` set gs" by (metis map_of_SomeD image_eqI snd_conv)
  then have "length (arrays h0) \<le> a" using loop_invariant_refs(3) [OF assms] by blast
  then show ?thesis using assms by (simp add: s loop_invariant_def)
qed

lemma group_step_arrays:
  assumes "loop_invariant h0 (gs, h)"
  shows "group_arrays (group_step st (gs, h) r) =
         groups_push (group_arrays (gs, h)) (best_key st (deref h r)) r"
proof (cases "map_of gs (best_key st (deref h r))")
  case None
  let ?k = "best_key st (deref h r)"
  from None have s: "group_step st (gs, h) r =
    (gs @ [(?k, length (arrays h))], h\<lparr>arrays := arrays h @ [[r]]\<rparr>)"
    by (simp add: group_step_def new_array_def)
  have "map (\<lambda>(k, a). (k, (arrays h @ [[r]]) ! a)) gs = map (\<lambda>(k, a). (k, arrays h ! a)) gs"
    using loop_invariant_refs(2) [OF assms] by (auto intro!: map_cong simp: nth_append)
  moreover have "?k \<notin> fst ` set (map (\<lambda>(k, a). (k, arrays h ! a)) gs)"
    using None by (force simp: map_of_eq_None_iff image_iff)
  ultimately show ?thesis
    by (simp add: s group_arrays_def groups_push_new)
next
  case (Some a)
  then have s: "group_step st (gs, h) r = (gs, h\<lparr>arrays := (arrays h)[a := arrays h ! a @ [r]]\<rparr>)"
    by (simp add: group_step_def array_push_def)
  show ?thesis
    using groups_push_existing [OF loop_invariant_refs(1,2) [OF assms] Some]
    by (simp add: s group_arrays_def)
qed

lemma group_step_objects:
  "objects (snd (group_step st (gs, h) r)) = objects h"
  by (simp add: group_step_def new_array_def array_push_def Let_def split: option.splits)

lemma foldl_group_step:
  assumes "loop_invariant h0 gh"
  shows "loop_invariant h0 (foldl (group_step st) gh rs) \<and>
         group_arrays (foldl (group_step st) gh rs) =
           foldl (\<lambda>G r. groups_push G (best_key st (deref h0 r)) r) (group_arrays gh) rs"
  using assms
proof (induction rs arbitrary: gh)
  case Nil
  then show ?case by simp
next
  case (Cons r rs)
  obtain gs h where gh: "gh = (gs, h)" by (cases gh)
  with Cons.prems have inv: "loop_invariant h0 (gs, h)" by simp
  then have "objects h = objects h0" by (simp add: loop_invariant_def)
  then have d: "deref h r = deref h0 r" by (simp add: deref_def)
  have "loop_invariant h0 (group_step st gh r)" using inv gh by (simp add: group_step_invariant)
  from Cons.IH [OF this] show ?case
    using group_step_arrays [OF inv, of st r] by (simp add: gh d)
qed

lemma group_loop_foldl:
  assumes "loop_invariant h0 gh" "a < length (arrays h0)" "i \<le> length (arrays h0 ! a)"
  shows "group_loop st a i gh = Some (foldl (group_step st) gh (drop i (arrays h0 ! a)))"
  using assms
proof (induction "length (arrays h0 ! a) - i" arbitrary: i gh)
  case 0
  obtain gs h where gh: "gh = (gs, h)" by (cases gh)
  from 0 have i: "i = length (arrays h0 ! a)" by simp
  have "arrays h ! a = arrays h0 ! a" using 0 gh by (simp add: loop_invariant_input)
  then show ?case by (subst group_loop.simps) (simp add: gh i)
next
  case (Suc n)
  obtain gs h where gh: "gh = (gs, h)" by (cases gh)
  from Suc have i: "i < length (arrays h0 ! a)" by simp
  have in_a: "arrays h ! a = arrays h0 ! a" using Suc.prems gh by (simp add: loop_invariant_input)
  let ?r = "arrays h0 ! a ! i"
  have inv: "loop_invariant h0 (group_step st gh ?r)"
    using Suc.prems(1) gh by (simp add: group_step_invariant)
  have "group_loop st a (Suc i) (group_step st gh ?r) =
        Some (foldl (group_step st) (group_step st gh ?r) (drop (Suc i) (arrays h0 ! a)))"
    using Suc.hyps(2) i Suc.prems(2) by (intro Suc.hyps(1) inv) simp_all
  moreover have "drop i (arrays h0 ! a) = ?r # drop (Suc i) (arrays h0 ! a)"
    using i by (simp add: Cons_nth_drop_Suc)
  ultimately show ?case
    by (subst group_loop.simps) (simp add: gh in_a i)
qed

lemma map_insert_sorted:
  assumes "\<And>x y. cmp' x y = cmp (f x) (f y)"
  shows "map f (insert_sorted cmp' x xs) = insert_sorted cmp (f x) (map f xs)"
  by (induction xs) (simp_all add: assms)

lemma map_array_sort:
  assumes "\<And>x y. cmp' x y = cmp (f x) (f y)"
  shows "map f (array_sort cmp' xs) = array_sort cmp (map f xs)"
  by (induction xs)
    (simp_all add: array_sort_def map_insert_sorted [where cmp = cmp and cmp' = cmp' and f = f, OF assms])

lemma finish_group_eq:
  "finish_group lc (out, h) (k, a) =
     (out @ [group_object_of h (k, a)],
      h\<lparr>arrays := (arrays h)[a := array_sort (member_compare_refs lc h) (arrays h ! a)]\<rparr>)"
proof -
  have "(\<lambda>x y. member_compare lc (deref h x) (deref h y)) = member_compare_refs lc h"
    by (intro ext) (simp add: member_compare_refs_def)
  then show ?thesis
    by (simp add: finish_group_def group_object_of_def sort_in_place_def Let_def)
qed

lemma member_compare_refs_cong:
  "objects h' = objects h \<Longrightarrow> member_compare_refs lc h' = member_compare_refs lc h"
  by (intro ext) (simp add: member_compare_refs_def deref_def)

lemma group_object_of_cong:
  "objects h' = objects h \<Longrightarrow> arrays h' ! a = arrays h ! a \<Longrightarrow>
   group_object_of h' (k, a) = group_object_of h (k, a)"
  by (simp add: group_object_of_def deref_def)

lemma foldl_finish_group:
  assumes "distinct (map snd es)" "\<forall>a\<in>snd ` set es. a < length (arrays h)"
  shows "\<exists>h'. foldl (finish_group lc) (out, h) es = (out @ map (group_object_of h) es, h') \<and>
           objects h' = objects h \<and> length (arrays h') = length (arrays h) \<and>
           (\<forall>j<length (arrays h). arrays h' ! j =
              (if j \<in> snd ` set es then array_sort (member_compare_refs lc h) (arrays h ! j)
               else arrays h ! j))"
  using assms
proof (induction es arbitrary: out h)
  case Nil
  then show ?case by simp
next
  case (Cons e es)
  obtain k a where e: "e = (k, a)" by (cases e)
  let ?h1 = "h\<lparr>arrays := (arrays h)[a := array_sort (member_compare_refs lc h) (arrays h ! a)]\<rparr>"
  have o1: "objects ?h1 = objects h" by simp
  have l1: "length (arrays ?h1) = length (arrays h)" by simp
  have a_lt: "a < length (arrays h)" using Cons.prems(2) e by simp
  have a_notin: "a \<notin> snd ` set es" using Cons.prems(1) e by (force simp: image_iff)
  have "distinct (map snd es)" using Cons.prems(1) by simp
  moreover have "\<forall>a'\<in>snd ` set es. a' < length (arrays ?h1)" using Cons.prems(2) by simp
  ultimately obtain h' where
    f: "foldl (finish_group lc) (out @ [group_object_of h (k, a)], ?h1) es =
          ((out @ [group_object_of h (k, a)]) @ map (group_object_of ?h1) es, h')"
    and o: "objects h' = objects ?h1" and l: "length (arrays h') = length (arrays ?h1)"
    and n: "\<forall>j<length (arrays ?h1). arrays h' ! j =
              (if j \<in> snd ` set es then array_sort (member_compare_refs lc ?h1) (arrays ?h1 ! j)
               else arrays ?h1 ! j)"
    using Cons.IH [of ?h1 "out @ [group_object_of h (k, a)]"] by blast
  have c: "member_compare_refs lc ?h1 = member_compare_refs lc h"
    by (rule member_compare_refs_cong) simp
  have g: "map (group_object_of ?h1) es = map (group_object_of h) es"
  proof (rule map_cong [OF refl])
    fix e' assume e': "e' \<in> set es"
    obtain k' a' where p: "e' = (k', a')" by (cases e')
    with e' have "a' \<in> snd ` set es" by (metis image_eqI snd_conv)
    with a_notin have "a' \<noteq> a" by blast
    then have "arrays ?h1 ! a' = arrays h ! a'" by simp
    then show "group_object_of ?h1 e' = group_object_of h e'"
      unfolding p by (intro group_object_of_cong) simp_all
  qed
  have "\<forall>j<length (arrays h). arrays h' ! j =
          (if j \<in> snd ` set (e # es) then array_sort (member_compare_refs lc h) (arrays h ! j)
           else arrays h ! j)"
  proof (intro allI impI)
    fix j assume j: "j < length (arrays h)"
    show "arrays h' ! j =
          (if j \<in> snd ` set (e # es) then array_sort (member_compare_refs lc h) (arrays h ! j)
           else arrays h ! j)"
    proof (cases "j = a")
      case True
      then show ?thesis using n j a_notin a_lt e by (simp add: c)
    next
      case False
      then show ?thesis using n j e by (simp add: c)
    qed
  qed
  then show ?case using f o l by (simp add: e finish_group_eq g)
qed

lemma group_object_compare_value:
  "group_object_compare lc h x y = group_compare lc (group_value h x) (group_value h y)"
  by (simp add: group_object_compare_def group_compare_def group_value_def Let_def)

lemma group_value_group_object_of:
  assumes "objects h1 = objects h" "objects h2 = objects h"
    and "arrays h2 ! a = array_sort (member_compare_refs lc h1) (arrays h1 ! a)"
  shows "group_value h2 (group_object_of h1 (k, a)) =
         make_group lc (k, map (deref h) (arrays h1 ! a))"
proof -
  have d1: "deref h1 = deref h" and d2: "deref h2 = deref h"
    using assms(1,2) by (auto simp: deref_def fun_eq_iff)
  have "map (deref h) (array_sort (member_compare_refs lc h1) (arrays h1 ! a)) =
        array_sort (member_compare lc) (map (deref h) (arrays h1 ! a))"
    by (rule map_array_sort) (simp add: member_compare_refs_def d1)
  moreover have "length (filter (\<lambda>r. is_running (deref h r)) (arrays h1 ! a)) =
                 length (filter is_running (map (deref h) (arrays h1 ! a)))"
    by (simp add: filter_map comp_def)
  ultimately show ?thesis
    by (simp add: group_value_def group_object_of_def make_group_def Let_def d1 d2 assms(3))
qed

lemma build_groups_map:
  "map (\<lambda>(k, rs). (k, map d rs)) (foldl (\<lambda>G r. groups_push G (f (d r)) r) [] xs) =
   foldl (\<lambda>G c. groups_push G (f c) c) [] (map d xs)"
proof -
  have "filter (\<lambda>c. f c = k) (map d xs) = map d (filter (\<lambda>r. f (d r) = k) xs)" for k
    by (simp add: filter_map comp_def)
  then show ?thesis
    by (simp add: build_groups_eq [where f = "\<lambda>r. f (d r)"] build_groups_eq [where f = f] comp_def)
qed

lemma mset_map_array_sort: "mset (map f (array_sort cmp xs)) = mset (map f xs)"
  by (simp only: mset_map mset_array_sort)

lemma on_store_refines:
  assumes "a < length (arrays h)"
  shows "\<exists>out h'. groupContainersByNamePrefix_on_store lc h a = Some (out, h') \<and>
           objects h' = objects h \<and>
           take (length (arrays h)) (arrays h') = arrays h \<and>
           (\<forall>g\<in>set out. length (arrays h) \<le> group_containers g \<and>
                         group_containers g < length (arrays h')) \<and>
           distinct (map group_containers out) \<and>
           map (group_value h') out = groupContainersByNamePrefix lc (snapshot h a)"
proof -
  let ?xs = "arrays h ! a"
  let ?n0 = "length (arrays h)"
  let ?st = "build_index (snapshot h a)"
  have st: "foldl (\<lambda>st r. index_step st (deref h r))
              \<lparr>candidateCounts = Map.empty, candidatesById = Map.empty\<rparr> ?xs = ?st"
    by (simp add: build_index_def snapshot_def foldl_map)
  have inv0: "loop_invariant h ([], h)" by (simp add: loop_invariant_def)
  obtain gs h1 where gh: "foldl (group_step ?st) ([], h) ?xs = (gs, h1)"
    by (cases "foldl (group_step ?st) ([], h) ?xs")
  have loop: "group_loop ?st a 0 ([], h) = Some (gs, h1)"
    using group_loop_foldl [OF inv0 assms, of 0 ?st] gh by simp
  from foldl_group_step [OF inv0, of ?st ?xs] gh
  have inv: "loop_invariant h (gs, h1)"
    and ga: "group_arrays (gs, h1) =
             foldl (\<lambda>G r. groups_push G (best_key ?st (deref h r)) r) [] ?xs"
    by (simp_all add: group_arrays_def)
  have o1: "objects h1 = objects h" and t1: "take ?n0 (arrays h1) = arrays h"
    and le1: "?n0 \<le> length (arrays h1)"
    using inv by (simp_all add: loop_invariant_def)
  note refs = loop_invariant_refs [OF inv]
  obtain h2 where
    fin: "foldl (finish_group lc) ([], h1) gs = ([] @ map (group_object_of h1) gs, h2)"
    and o2: "objects h2 = objects h1" and l2: "length (arrays h2) = length (arrays h1)"
    and n2: "\<forall>j<length (arrays h1). arrays h2 ! j =
              (if j \<in> snd ` set gs then array_sort (member_compare_refs lc h1) (arrays h1 ! j)
               else arrays h1 ! j)"
    using foldl_finish_group [OF refs(1,2), of lc "[]"] by blast
  let ?unsorted = "map (group_object_of h1) gs"
  let ?out = "array_sort (group_object_compare lc h2) ?unsorted"
  have run: "groupContainersByNamePrefix_on_store lc h a = Some (?out, h2)"
    using fin by (simp add: groupContainersByNamePrefix_on_store_def st loop)
  have frame: "take ?n0 (arrays h2) = arrays h"
  proof (rule nth_equalityI)
    show "length (take ?n0 (arrays h2)) = length (arrays h)" using l2 le1 by simp
    fix j assume "j < length (take ?n0 (arrays h2))"
    then have j: "j < ?n0" by simp
    then have "j \<notin> snd ` set gs" using refs(3) by auto
    then have "arrays h2 ! j = arrays h1 ! j" using n2 j le1 by simp
    also have "\<dots> = arrays h ! j" using t1 j by (metis nth_take)
    finally show "take ?n0 (arrays h2) ! j = arrays h ! j" using j by simp
  qed
  have gc: "map group_containers ?unsorted = map snd gs"
    by (simp add: group_object_of_def comp_def case_prod_beta)
  have perm: "mset (map group_containers ?out) = mset (map snd gs)"
    by (simp only: mset_map_array_sort gc)
  then have dist: "distinct (map group_containers ?out)"
    using refs(1) by (metis mset_eq_imp_distinct_iff)
  have sets: "set (map group_containers ?out) = set (map snd gs)" using perm by (rule mset_eq_setD)
  have fresh: "\<forall>g\<in>set ?out. ?n0 \<le> group_containers g \<and> group_containers g < length (arrays h2)"
  proof
    fix g assume "g \<in> set ?out"
    then have "group_containers g \<in> set (map group_containers ?out)" by simp
    then have "group_containers g \<in> snd ` set gs" unfolding sets by simp
    then show "?n0 \<le> group_containers g \<and> group_containers g < length (arrays h2)"
      using refs(2,3) l2 by auto
  qed
  have "map (group_value h2) ?out = array_sort (group_compare lc) (map (group_value h2) ?unsorted)"
    by (rule map_array_sort) (rule group_object_compare_value)
  also have "map (group_value h2) ?unsorted =
             map (make_group lc) (map (\<lambda>(k, rs). (k, map (deref h) rs)) (group_arrays (gs, h1)))"
  proof -
    have "group_value h2 (group_object_of h1 e) =
          make_group lc (case e of (k, a') \<Rightarrow> (k, map (deref h) (arrays h1 ! a')))"
      if e: "e \<in> set gs" for e
    proof -
      obtain k a' where p: "e = (k, a')" by (cases e)
      with e have m: "a' \<in> snd ` set gs" by (metis image_eqI snd_conv)
      then have "a' < length (arrays h1)" using refs(2) by blast
      with n2 m have "arrays h2 ! a' = array_sort (member_compare_refs lc h1) (arrays h1 ! a')"
        by simp
      then show ?thesis
        unfolding p using o1 o2 by (simp add: group_value_group_object_of)
    qed
    then show ?thesis
      by (simp add: group_arrays_def comp_def case_prod_beta cong: map_cong)
  qed
  also have "map (\<lambda>(k, rs). (k, map (deref h) rs)) (group_arrays (gs, h1)) =
             build_groups ?st (snapshot h a)"
    unfolding ga build_groups_def snapshot_def by (rule build_groups_map)
  finally have "map (group_value h2) ?out = groupContainersByNamePrefix lc (snapshot h a)"
    by (simp add: groupContainersByNamePrefix_def)
  with run o1 o2 frame fresh dist show ?thesis by (metis (no_types, lifting))
qed

lemma frame_nth:
  assumes "take n xs = ys" "j < length ys"
  shows "xs ! j = ys ! j"
  using assms by (metis length_take min_less_iff_conj nth_take)

text \<open>
  Claim C10.  A call on a store leaves its input unchanged: it returns, the input array
  holds the same references in the same order, no object and no array that existed
  before the call is written, and the member arrays of the output are distinct arrays
  allocated by the call (the in-place sorts write only these).
\<close>

theorem input_unchanged:
  assumes "well_formed h a"
  shows "\<exists>out h'. groupContainersByNamePrefix_on_store lc h a = Some (out, h') \<and>
           arrays h' ! a = arrays h ! a \<and>
           objects h' = objects h \<and>
           (\<forall>j<length (arrays h). arrays h' ! j = arrays h ! j) \<and>
           (\<forall>g\<in>set out. length (arrays h) \<le> group_containers g \<and>
                         group_containers g < length (arrays h')) \<and>
           distinct (map group_containers out)"
proof -
  from assms have a: "a < length (arrays h)" by (simp add: well_formed_def)
  from on_store_refines [OF a, of lc] obtain out h' where
    r: "groupContainersByNamePrefix_on_store lc h a = Some (out, h')"
    and o: "objects h' = objects h"
    and t: "take (length (arrays h)) (arrays h') = arrays h"
    and f: "\<forall>g\<in>set out. length (arrays h) \<le> group_containers g \<and>
                         group_containers g < length (arrays h')"
    and d: "distinct (map group_containers out)"
    by blast
  have n: "\<forall>j<length (arrays h). arrays h' ! j = arrays h ! j"
    using frame_nth [OF t] by blast
  with a have "arrays h' ! a = arrays h ! a" by simp
  with r o n f d show ?thesis by blast
qed

theorem input_unchanged_witness:
  "well_formed store_B 0 \<and>
   (\<exists>out h'. groupContainersByNamePrefix_on_store codeUnitCompare store_B 0 = Some (out, h') \<and>
      map group_containers out = [1] \<and> arrays h' = [[0, 1, 2], [0, 2, 1]] \<and>
      objects h' = objects store_B \<and> arrays h' ! 0 = arrays store_B ! 0)"
proof -
  have w: "well_formed store_B 0" by code_simp
  from input_unchanged [OF w, of codeUnitCompare] obtain out h' where
    r: "groupContainersByNamePrefix_on_store codeUnitCompare store_B 0 = Some (out, h')"
    and i: "arrays h' ! 0 = arrays store_B ! 0" and o: "objects h' = objects store_B"
    by blast
  have "map_option (\<lambda>(out, h). (map group_containers out, arrays h))
          (groupContainersByNamePrefix_on_store codeUnitCompare store_B 0) =
        Some ([1], [[0, 1, 2], [0, 2, 1]])"
    by code_simp
  with r have "map group_containers out = [1]" "arrays h' = [[0, 1, 2], [0, 2, 1]]" by simp_all
  with r i o have "\<exists>out h'. groupContainersByNamePrefix_on_store codeUnitCompare store_B 0 = Some (out, h') \<and>
      map group_containers out = [1] \<and> arrays h' = [[0, 1, 2], [0, 2, 1]] \<and>
      objects h' = objects store_B \<and> arrays h' ! 0 = arrays store_B ! 0"
    by (intro exI [of _ out] exI [of _ h']) (simp only: simp_thms)
  with w show ?thesis by (rule conjI)
qed

text \<open>
  Claim C9.  The result is a function of the snapshot alone: two calls on equal
  snapshots, in whatever stores and at whatever array references, both return and give
  the same groups in the same order with the same members in the same order; and a
  second call on the store that a first call left behind gives again the result of the
  first call and leaves the groups of the first call as they were.  The comparator
  \<open>localeCompare\<close> is the same in both calls.
\<close>

theorem runs_agree:
  "(well_formed h a \<and> well_formed h' a' \<and> snapshot h a = snapshot h' a' \<longrightarrow>
      (\<exists>out1 h1 out2 h2.
         groupContainersByNamePrefix_on_store lc h a = Some (out1, h1) \<and>
         groupContainersByNamePrefix_on_store lc h' a' = Some (out2, h2) \<and>
         map (group_value h1) out1 = map (group_value h2) out2)) \<and>
   (well_formed h a \<longrightarrow>
      (\<exists>out1 h1 out2 h2.
         groupContainersByNamePrefix_on_store lc h a = Some (out1, h1) \<and>
         groupContainersByNamePrefix_on_store lc h1 a = Some (out2, h2) \<and>
         map (group_value h2) out2 = map (group_value h1) out1 \<and>
         map (group_value h2) out1 = map (group_value h1) out1))"
proof (intro conjI impI)
  assume w: "well_formed h a \<and> well_formed h' a' \<and> snapshot h a = snapshot h' a'"
  then have a: "a < length (arrays h)" and a': "a' < length (arrays h')"
    by (simp_all add: well_formed_def)
  from on_store_refines [OF a, of lc] obtain out1 h1 where
    "groupContainersByNamePrefix_on_store lc h a = Some (out1, h1)"
    "map (group_value h1) out1 = groupContainersByNamePrefix lc (snapshot h a)"
    by blast
  moreover from on_store_refines [OF a', of lc] obtain out2 h2 where
    "groupContainersByNamePrefix_on_store lc h' a' = Some (out2, h2)"
    "map (group_value h2) out2 = groupContainersByNamePrefix lc (snapshot h' a')"
    by blast
  ultimately show "\<exists>out1 h1 out2 h2.
         groupContainersByNamePrefix_on_store lc h a = Some (out1, h1) \<and>
         groupContainersByNamePrefix_on_store lc h' a' = Some (out2, h2) \<and>
         map (group_value h1) out1 = map (group_value h2) out2"
    using w by metis
next
  assume w: "well_formed h a"
  then have a: "a < length (arrays h)" by (simp add: well_formed_def)
  from on_store_refines [OF a, of lc] obtain out1 h1 where
    r1: "groupContainersByNamePrefix_on_store lc h a = Some (out1, h1)"
    and o1: "objects h1 = objects h"
    and t1: "take (length (arrays h)) (arrays h1) = arrays h"
    and f1: "\<forall>g\<in>set out1. length (arrays h) \<le> group_containers g \<and>
                          group_containers g < length (arrays h1)"
    and v1: "map (group_value h1) out1 = groupContainersByNamePrefix lc (snapshot h a)"
    by blast
  have le: "length (arrays h) \<le> length (arrays h1)"
    using t1 by (metis length_take min.cobounded1)
  then have a1: "a < length (arrays h1)" using a by simp
  have "arrays h1 ! a = arrays h ! a" using t1 a by (rule frame_nth)
  then have s: "snapshot h1 a = snapshot h a" using o1 by (simp add: snapshot_def deref_def)
  from on_store_refines [OF a1, of lc] obtain out2 h2 where
    r2: "groupContainersByNamePrefix_on_store lc h1 a = Some (out2, h2)"
    and o2: "objects h2 = objects h1"
    and t2: "take (length (arrays h1)) (arrays h2) = arrays h1"
    and v2: "map (group_value h2) out2 = groupContainersByNamePrefix lc (snapshot h1 a)"
    by blast
  have "group_value h2 g = group_value h1 g" if "g \<in> set out1" for g
  proof -
    from that f1 have "group_containers g < length (arrays h1)" by blast
    with t2 have "arrays h2 ! group_containers g = arrays h1 ! group_containers g"
      by (rule frame_nth)
    then show ?thesis using o2 by (simp add: group_value_def deref_def)
  qed
  then have "map (group_value h2) out1 = map (group_value h1) out1" by simp
  moreover have "map (group_value h2) out2 = map (group_value h1) out1"
    by (simp only: v1 v2 s)
  ultimately show "\<exists>out1 h1 out2 h2.
         groupContainersByNamePrefix_on_store lc h a = Some (out1, h1) \<and>
         groupContainersByNamePrefix_on_store lc h1 a = Some (out2, h2) \<and>
         map (group_value h2) out2 = map (group_value h1) out1 \<and>
         map (group_value h2) out1 = map (group_value h1) out1"
    using r1 r2 by blast
qed

theorem runs_agree_witness:
  "well_formed store_B 0 \<and> well_formed store_B_copy 1 \<and>
   snapshot store_B 0 = snapshot store_B_copy 1 \<and>
   (\<exists>out1 h1 out2 h2.
      groupContainersByNamePrefix_on_store codeUnitCompare store_B 0 = Some (out1, h1) \<and>
      groupContainersByNamePrefix_on_store codeUnitCompare store_B_copy 1 = Some (out2, h2) \<and>
      map group_containers out1 = [1] \<and> map group_containers out2 = [2] \<and>
      map (group_value h1) out1 = map (group_value h2) out2) \<and>
   (\<exists>out1 h1 out2 h2.
      groupContainersByNamePrefix_on_store codeUnitCompare store_B 0 = Some (out1, h1) \<and>
      groupContainersByNamePrefix_on_store codeUnitCompare h1 0 = Some (out2, h2) \<and>
      map (group_value h2) out2 = map (group_value h1) out1)"
proof -
  have w: "well_formed store_B 0" by code_simp
  have w': "well_formed store_B_copy 1" by code_simp
  have s: "snapshot store_B 0 = snapshot store_B_copy 1" by code_simp
  note th = runs_agree [of store_B 0 store_B_copy 1 codeUnitCompare]
  from th w w' s obtain out1 h1 out2 h2 where
    r1: "groupContainersByNamePrefix_on_store codeUnitCompare store_B 0 = Some (out1, h1)"
    and r2: "groupContainersByNamePrefix_on_store codeUnitCompare store_B_copy 1 = Some (out2, h2)"
    and v: "map (group_value h1) out1 = map (group_value h2) out2"
    by blast
  have "map_option (\<lambda>(out, h). map group_containers out)
          (groupContainersByNamePrefix_on_store codeUnitCompare store_B 0) = Some [1]"
    by code_simp
  with r1 have c1: "map group_containers out1 = [1]" by simp
  have "map_option (\<lambda>(out, h). map group_containers out)
          (groupContainersByNamePrefix_on_store codeUnitCompare store_B_copy 1) = Some [2]"
    by code_simp
  with r2 have c2: "map group_containers out2 = [2]" by simp
  have first: "\<exists>out1 h1 out2 h2.
      groupContainersByNamePrefix_on_store codeUnitCompare store_B 0 = Some (out1, h1) \<and>
      groupContainersByNamePrefix_on_store codeUnitCompare store_B_copy 1 = Some (out2, h2) \<and>
      map group_containers out1 = [1] \<and> map group_containers out2 = [2] \<and>
      map (group_value h1) out1 = map (group_value h2) out2"
    using r1 r2 v c1 c2
    by (intro exI [of _ out1] exI [of _ h1] exI [of _ out2] exI [of _ h2]) (simp only: simp_thms)
  from th w obtain out3 h3 out4 h4 where
    "groupContainersByNamePrefix_on_store codeUnitCompare store_B 0 = Some (out3, h3)"
    "groupContainersByNamePrefix_on_store codeUnitCompare h3 0 = Some (out4, h4)"
    "map (group_value h4) out4 = map (group_value h3) out3"
    by blast
  then have second: "\<exists>out1 h1 out2 h2.
      groupContainersByNamePrefix_on_store codeUnitCompare store_B 0 = Some (out1, h1) \<and>
      groupContainersByNamePrefix_on_store codeUnitCompare h1 0 = Some (out2, h2) \<and>
      map (group_value h2) out2 = map (group_value h1) out1"
    by (intro exI [of _ out3] exI [of _ h3] exI [of _ out4] exI [of _ h4]) (simp only: simp_thms)
  from w w' s first second show ?thesis by (intro conjI)
qed

end
